theory Spec2Isabelle
  imports Complex_Main "HOL-Library.Word"
begin

unbundle bit_operations_syntax

section \<open>Python and NumPy values\<close>

subsection \<open>Exceptions\<close>

text \<open>
  The exceptions that the lane detector of \<^verbatim>\<open>assignment-2/task2/main.py\<close> can raise or
  let through.  Only the \<^verbatim>\<open>ValueError\<close> carries a message that the source fixes.
\<close>

datatype exn =
    ValueError string
  | OverflowError
  | ZeroDivisionError
  | cv2_error

text \<open>A step that raised ends the computation; otherwise the next step takes its value.\<close>

definition and_then :: "exn + 'a \<Rightarrow> ('a \<Rightarrow> exn + 'b) \<Rightarrow> exn + 'b" where
  "and_then r f = (case r of Inl e \<Rightarrow> Inl e | Inr x \<Rightarrow> f x)"

subsection \<open>Floats\<close>

text \<open>
  A finite Python \<^verbatim>\<open>float\<close> (IEEE 754 binary64) is modelled by the real number it
  denotes.  The result of an arithmetic operation is the exact result rounded to the
  nearest double, ties to the even significand.

  \<open>log2_floor n x e\<close> searches the binary exponent of a positive \<open>x\<close>: it returns
  \<open>e + k\<close> for the \<open>k\<close> with \<open>2 ^ k \<le> x < 2 ^ (k + 1)\<close>, as long as \<open>\<bar>k\<bar> \<le> n\<close>.  The
  doubles have exponents between \<open>-1074\<close> and \<open>1023\<close>; 2200 steps cover them.
\<close>

fun log2_floor :: "nat \<Rightarrow> real \<Rightarrow> int \<Rightarrow> int" where
  "log2_floor 0 x e = e"
| "log2_floor (Suc n) x e =
     (if x < 1 then log2_floor n (2 * x) (e - 1)
      else if 2 \<le> x then log2_floor n (x / 2) (e + 1)
      else e)"

definition round_half_even :: "real \<Rightarrow> int" where
  "round_half_even y =
     (let f = \<lfloor>y\<rfloor>; d = y - of_int f
      in if d < 1 / 2 then f else if 1 / 2 < d then f + 1
         else if even f then f else f + 1)"

text \<open>
  The exponent of the last place of the double nearest to \<open>x\<close>: 52 below the binary
  exponent for a normal number, \<open>-1074\<close> for a subnormal one.
\<close>

definition ulp_exponent :: "real \<Rightarrow> int" where
  "ulp_exponent x = max (log2_floor 2200 \<bar>x\<bar> 0 - 52) (- 1074)"

definition round_to_double :: "real \<Rightarrow> real" where
  "round_to_double x =
     (if x = 0 then 0
      else let u = ulp_exponent x
           in of_int (round_half_even (x / 2 powi u)) * 2 powi u)"

definition double_max :: real where
  "double_max = (2 ^ 53 - 1) * 2 ^ 971"

text \<open>
  \<^verbatim>\<open>a / b\<close> on two Python integers: the correctly rounded quotient;
  \<^verbatim>\<open>ZeroDivisionError\<close> for a zero divisor, \<^verbatim>\<open>OverflowError\<close> when the quotient is too
  large for a float.
\<close>

definition py_truediv :: "int \<Rightarrow> int \<Rightarrow> exn + real" where
  "py_truediv a b =
     (if b = 0 then Inl ZeroDivisionError
      else let r = round_to_double (of_int a / of_int b)
           in if double_max < \<bar>r\<bar> then Inl OverflowError else Inr r)"

text \<open>
  \<^verbatim>\<open>n * x\<close> for an integer \<open>n\<close> and a float \<open>x\<close>: \<open>n\<close> is converted to a float
  (\<^verbatim>\<open>OverflowError\<close> when it is too large) and the product is rounded.  A product beyond
  the largest double is an infinity, written \<open>None\<close>.
\<close>

definition py_float_of_int :: "int \<Rightarrow> exn + real" where
  "py_float_of_int n =
     (let r = round_to_double (of_int n)
      in if double_max < \<bar>r\<bar> then Inl OverflowError else Inr r)"

definition py_int_mul_float :: "int \<Rightarrow> real \<Rightarrow> exn + real option" where
  "py_int_mul_float n x =
     (case py_float_of_int n of
        Inl e \<Rightarrow> Inl e
      | Inr f \<Rightarrow>
          let r = round_to_double (f * x)
          in Inr (if double_max < \<bar>r\<bar> then None else Some r))"

text \<open>
  \<^verbatim>\<open>int(x)\<close> on a float truncates towards zero, and raises \<^verbatim>\<open>OverflowError\<close> on an
  infinity.
\<close>

definition py_int :: "real option \<Rightarrow> exn + int" where
  "py_int f =
     (case f of
        None \<Rightarrow> Inl OverflowError
      | Some x \<Rightarrow> Inr (if 0 \<le> x then \<lfloor>x\<rfloor> else \<lceil>x\<rceil>))"

text \<open>\<^verbatim>\<open>np.pi\<close>, the double nearest to \<open>\<pi>\<close>.\<close>

definition np_pi :: real where
  "np_pi = 884279719003555 / 2 ^ 48"

subsection \<open>Decimal text\<close>

text \<open>\<^verbatim>\<open>str(n)\<close> for an integer.\<close>

fun str_nat :: "nat \<Rightarrow> string" where
  "str_nat n =
     (if n < 10 then [''0123456789'' ! n]
      else str_nat (n div 10) @ [''0123456789'' ! (n mod 10)])"

declare str_nat.simps [simp del]

definition str_int :: "int \<Rightarrow> string" where
  "str_int i = (if i < 0 then ''-'' @ str_nat (nat (- i)) else str_nat (nat i))"

text \<open>
  \<^verbatim>\<open>f"{x:.1f}"\<close>: the value rounded to one decimal place, ties of the exact value to
  the even digit; \<^verbatim>\<open>nan\<close> for a NaN, written \<open>None\<close>.
\<close>

definition format_1f :: "real option \<Rightarrow> string" where
  "format_1f f =
     (case f of
        None \<Rightarrow> ''nan''
      | Some x \<Rightarrow>
          let t = round_half_even (\<bar>x\<bar> * 10)
          in (if x < 0 then ''-'' else []) @
             str_nat (nat (t div 10)) @ ''.'' @ str_nat (nat (t mod 10)))"

subsection \<open>Arrays and the object store\<close>

text \<open>
  A \<^verbatim>\<open>numpy.ndarray\<close> of dtype \<^verbatim>\<open>uint8\<close>: its shape and its elements in row-major
  order.  A colour image has shape \<open>[height, width, 3]\<close>, a single-channel one
  \<open>[height, width]\<close>.
\<close>

record ndarray =
  shape :: "nat list"
  data :: "8 word list"

text \<open>
  Arrays are objects: \<^verbatim>\<open>cv2.line\<close>, \<^verbatim>\<open>cv2.polylines\<close> and \<^verbatim>\<open>cv2.fillPoly\<close> write into
  the array they are given, and every other holder of that array sees the change.  The
  store lists the arrays that exist; an array is named by its position, and a new array
  goes to the end.
\<close>

type_synonym addr = nat
type_synonym heap = "ndarray list"

text \<open>
  A statement runs on a store and either returns a value or raises, and leaves a store
  behind in both cases.
\<close>

type_synonym 'a prog = "heap \<Rightarrow> (exn + 'a) \<times> heap"

definition ret :: "'a \<Rightarrow> 'a prog" where
  "ret x h = (Inr x, h)"

definition raise :: "exn \<Rightarrow> 'a prog" where
  "raise e h = (Inl e, h)"

definition bind :: "'a prog \<Rightarrow> ('a \<Rightarrow> 'b prog) \<Rightarrow> 'b prog" where
  "bind m f h = (case m h of (Inl e, h') \<Rightarrow> (Inl e, h') | (Inr x, h') \<Rightarrow> f x h')"

definition liftE :: "exn + 'a \<Rightarrow> 'a prog" where
  "liftE v h = (v, h)"

definition alloc :: "ndarray \<Rightarrow> addr prog" where
  "alloc a h = (Inr (length h), h @ [a])"

definition deref :: "addr \<Rightarrow> ndarray prog" where
  "deref p h = (Inr (h ! p), h)"

definition assign :: "addr \<Rightarrow> ndarray \<Rightarrow> unit prog" where
  "assign p a h = (Inr (), h[p := a])"

text \<open>A row of the array that \<^verbatim>\<open>cv2.HoughLinesP\<close> returns: four \<^verbatim>\<open>int32\<close>, read as signed by \<open>sint\<close>.\<close>

type_synonym int32 = "32 word"
type_synonym segment = "int32 \<times> int32 \<times> int32 \<times> int32"
type_synonym point = "int \<times> int"
type_synonym colour = "nat \<times> nat \<times> nat"

section \<open>The library calls\<close>

text \<open>
  The numerical work of OpenCV is not part of the repository.  Each call the detector
  makes is a field of the record below: a function from the arguments of the call to
  the elements it computes, or to the exception it raises.  What the Python binding
  adds around it (the shape of the result, the array written to, \<^verbatim>\<open>None\<close> for an empty
  result) is written out in the definitions that follow.
\<close>

record opencv =
  imread :: "string \<Rightarrow> ndarray option"
  resize :: "ndarray \<Rightarrow> nat \<times> nat \<Rightarrow> exn + 8 word list"
  cvtColor_BGR2GRAY :: "ndarray \<Rightarrow> exn + 8 word list"
  GaussianBlur :: "ndarray \<Rightarrow> nat \<times> nat \<Rightarrow> real \<Rightarrow> exn + 8 word list"
  Canny :: "ndarray \<Rightarrow> int \<Rightarrow> int \<Rightarrow> exn + 8 word list"
  fillPoly :: "ndarray \<Rightarrow> point list list \<Rightarrow> 8 word \<Rightarrow> exn + 8 word list"
  HoughLinesP :: "ndarray \<Rightarrow> real \<Rightarrow> real \<Rightarrow> int \<Rightarrow> int \<Rightarrow> int \<Rightarrow> exn + segment list"
  line :: "ndarray \<Rightarrow> int32 \<times> int32 \<Rightarrow> int32 \<times> int32 \<Rightarrow> colour \<Rightarrow> nat \<Rightarrow> exn + 8 word list"
  polylines :: "ndarray \<Rightarrow> point list list \<Rightarrow> bool \<Rightarrow> colour \<Rightarrow> nat \<Rightarrow> exn + 8 word list"

subsection \<open>The array a call produces\<close>

definition array_of :: "nat list \<Rightarrow> exn + 8 word list \<Rightarrow> exn + ndarray" where
  "array_of s r = (case r of Inl e \<Rightarrow> Inl e | Inr d \<Rightarrow> Inr \<lparr>shape = s, data = d\<rparr>)"

text \<open>
  \<^verbatim>\<open>cv2.resize(src, (w, h))\<close> with no scale factors: OpenCV rejects a target size with
  a dimension that is not positive; otherwise the result has \<open>h\<close> rows and \<open>w\<close> columns
  and the channels of the source.
\<close>

definition resized :: "opencv \<Rightarrow> int \<times> int \<Rightarrow> ndarray \<Rightarrow> exn + ndarray" where
  "resized cv dsize a =
     (case dsize of (w, h) \<Rightarrow>
        if w \<le> 0 \<or> h \<le> 0 then Inl cv2_error
        else array_of ([nat h, nat w] @ drop 2 (shape a)) (resize cv a (nat w, nat h)))"

text \<open>\<^verbatim>\<open>cv2.cvtColor(src, cv2.COLOR_BGR2GRAY)\<close>: a single-channel array of the same size.\<close>

definition gray_of :: "opencv \<Rightarrow> ndarray \<Rightarrow> exn + ndarray" where
  "gray_of cv a = array_of (take 2 (shape a)) (cvtColor_BGR2GRAY cv a)"

text \<open>\<^verbatim>\<open>cv2.GaussianBlur(src, ksize, sigmaX)\<close>: an array of the same shape.\<close>

definition blurred_of :: "opencv \<Rightarrow> nat \<times> nat \<Rightarrow> real \<Rightarrow> ndarray \<Rightarrow> exn + ndarray" where
  "blurred_of cv ksize sigmaX a = array_of (shape a) (GaussianBlur cv a ksize sigmaX)"

text \<open>\<^verbatim>\<open>cv2.Canny(image, threshold1, threshold2)\<close>: a single-channel edge map of the same size.\<close>

definition canny_of :: "opencv \<Rightarrow> int \<Rightarrow> int \<Rightarrow> ndarray \<Rightarrow> exn + ndarray" where
  "canny_of cv threshold1 threshold2 a =
     array_of (take 2 (shape a)) (Canny cv a threshold1 threshold2)"

text \<open>\<^verbatim>\<open>np.zeros_like(a)\<close>: an array of the shape of \<open>a\<close>, all zero.\<close>

definition zeros_like :: "ndarray \<Rightarrow> exn + ndarray" where
  "zeros_like a = Inr \<lparr>shape = shape a, data = replicate (length (data a)) 0\<rparr>"

text \<open>
  \<^verbatim>\<open>cv2.fillPoly\<close>, \<^verbatim>\<open>cv2.line\<close> and \<^verbatim>\<open>cv2.polylines\<close> change the elements of the array
  they are given and keep its shape.
\<close>

definition filled :: "opencv \<Rightarrow> point list list \<Rightarrow> 8 word \<Rightarrow> ndarray \<Rightarrow> exn + ndarray" where
  "filled cv pts color a = array_of (shape a) (fillPoly cv a pts color)"

definition with_line ::
  "opencv \<Rightarrow> int32 \<times> int32 \<Rightarrow> int32 \<times> int32 \<Rightarrow> colour \<Rightarrow> nat \<Rightarrow> ndarray \<Rightarrow> exn + ndarray" where
  "with_line cv pt1 pt2 color thickness a = array_of (shape a) (line cv a pt1 pt2 color thickness)"

definition with_polylines ::
  "opencv \<Rightarrow> point list list \<Rightarrow> bool \<Rightarrow> colour \<Rightarrow> nat \<Rightarrow> ndarray \<Rightarrow> exn + ndarray" where
  "with_polylines cv pts isClosed color thickness a =
     array_of (shape a) (polylines cv a pts isClosed color thickness)"

text \<open>
  \<^verbatim>\<open>cv2.bitwise_and(src1, src2)\<close>: the element-wise conjunction of two arrays of the
  same shape.
\<close>

definition anded :: "ndarray \<Rightarrow> ndarray \<Rightarrow> exn + ndarray" where
  "anded a b =
     (if shape a \<noteq> shape b then Inl cv2_error
      else Inr \<lparr>shape = shape a, data = map2 (AND) (data a) (data b)\<rparr>)"

text \<open>
  \<^verbatim>\<open>cv2.HoughLinesP\<close>: the Python binding returns \<^verbatim>\<open>None\<close> when the transform found no
  segment, and the array of the segments otherwise.
\<close>

definition hough_lines ::
  "opencv \<Rightarrow> real \<Rightarrow> real \<Rightarrow> int \<Rightarrow> int \<Rightarrow> int \<Rightarrow> ndarray \<Rightarrow> exn + segment list option" where
  "hough_lines cv rho theta threshold minLineLength maxLineGap a =
     (case HoughLinesP cv a rho theta threshold minLineLength maxLineGap of
        Inl e \<Rightarrow> Inl e
      | Inr segs \<Rightarrow> Inr (if segs = [] then None else Some segs))"

text \<open>
  \<^verbatim>\<open>np.array(rows, dtype=np.int32)\<close> on rows of Python integers: an integer outside the
  \<^verbatim>\<open>int32\<close> range is refused.
\<close>

definition in_int32 :: "int \<Rightarrow> bool" where
  "in_int32 v \<longleftrightarrow> - (2 ^ 31) \<le> v \<and> v < 2 ^ 31"

definition np_array_int32 :: "point list \<Rightarrow> exn + point list" where
  "np_array_int32 rows =
     (if list_all (\<lambda>(x, y). in_int32 x \<and> in_int32 y) rows then Inr rows
      else Inl OverflowError)"

subsection \<open>The calls on the store\<close>

text \<open>
  A call that returns a new array reads its argument in the store and puts the result
  at a new place; a call that draws reads the array and writes it back at its place.
\<close>

definition new_from :: "addr \<Rightarrow> (ndarray \<Rightarrow> exn + ndarray) \<Rightarrow> addr prog" where
  "new_from src f = bind (deref src) (\<lambda>a. bind (liftE (f a)) alloc)"

definition in_place :: "addr \<Rightarrow> (ndarray \<Rightarrow> exn + ndarray) \<Rightarrow> unit prog" where
  "in_place img f = bind (deref img) (\<lambda>a. bind (liftE (f a)) (assign img))"

text \<open>
  \<^verbatim>\<open>cv2.imread(path)\<close> returns \<^verbatim>\<open>None\<close> for a file that is missing, empty or not
  decodable, and a new array otherwise.
\<close>

definition cv2_imread :: "opencv \<Rightarrow> string \<Rightarrow> addr option prog" where
  "cv2_imread cv path =
     (case imread cv path of
        None \<Rightarrow> ret None
      | Some a \<Rightarrow> bind (alloc a) (\<lambda>p. ret (Some p)))"

definition cv2_resize :: "opencv \<Rightarrow> addr \<Rightarrow> int \<times> int \<Rightarrow> addr prog" where
  "cv2_resize cv src dsize = new_from src (resized cv dsize)"

definition cv2_cvtColor_BGR2GRAY :: "opencv \<Rightarrow> addr \<Rightarrow> addr prog" where
  "cv2_cvtColor_BGR2GRAY cv src = new_from src (gray_of cv)"

definition cv2_GaussianBlur :: "opencv \<Rightarrow> addr \<Rightarrow> nat \<times> nat \<Rightarrow> real \<Rightarrow> addr prog" where
  "cv2_GaussianBlur cv src ksize sigmaX = new_from src (blurred_of cv ksize sigmaX)"

definition cv2_Canny :: "opencv \<Rightarrow> addr \<Rightarrow> int \<Rightarrow> int \<Rightarrow> addr prog" where
  "cv2_Canny cv src threshold1 threshold2 = new_from src (canny_of cv threshold1 threshold2)"

definition np_zeros_like :: "addr \<Rightarrow> addr prog" where
  "np_zeros_like src = new_from src zeros_like"

definition ndarray_copy :: "addr \<Rightarrow> addr prog" where
  "ndarray_copy src = new_from src Inr"

definition cv2_bitwise_and :: "addr \<Rightarrow> addr \<Rightarrow> addr prog" where
  "cv2_bitwise_and src1 src2 = bind (deref src2) (\<lambda>b. new_from src1 (\<lambda>a. anded a b))"

definition cv2_fillPoly :: "opencv \<Rightarrow> addr \<Rightarrow> point list list \<Rightarrow> 8 word \<Rightarrow> unit prog" where
  "cv2_fillPoly cv img pts color = in_place img (filled cv pts color)"

definition cv2_line ::
  "opencv \<Rightarrow> addr \<Rightarrow> int32 \<times> int32 \<Rightarrow> int32 \<times> int32 \<Rightarrow> colour \<Rightarrow> nat \<Rightarrow> unit prog" where
  "cv2_line cv img pt1 pt2 color thickness = in_place img (with_line cv pt1 pt2 color thickness)"

definition cv2_polylines ::
  "opencv \<Rightarrow> addr \<Rightarrow> point list list \<Rightarrow> bool \<Rightarrow> colour \<Rightarrow> nat \<Rightarrow> unit prog" where
  "cv2_polylines cv img pts isClosed color thickness =
     in_place img (with_polylines cv pts isClosed color thickness)"

definition cv2_HoughLinesP ::
  "opencv \<Rightarrow> addr \<Rightarrow> real \<Rightarrow> real \<Rightarrow> int \<Rightarrow> int \<Rightarrow> int \<Rightarrow> segment list option prog" where
  "cv2_HoughLinesP cv img rho theta threshold minLineLength maxLineGap =
     bind (deref img) (\<lambda>a.
       liftE (hough_lines cv rho theta threshold minLineLength maxLineGap a))"

section \<open>The lane detector\<close>

subsection \<open>\<^verbatim>\<open>LaneDetector.__init__\<close>\<close>

record LaneDetector =
  original_image :: addr
  image_path :: string

text \<open>
  \<^verbatim>\<open>height, width = a.shape[:2]\<close>: the unpacking fails on an array of fewer than two
  dimensions.
\<close>

definition shape2 :: "nat list \<Rightarrow> exn + (int \<times> int)" where
  "shape2 s =
     (case s of
        [height, width] \<Rightarrow> Inr (int height, int width)
      | _ \<Rightarrow> Inl (ValueError ''not enough values to unpack''))"

text \<open>
  The size handed to \<^verbatim>\<open>cv2.resize\<close> for an image that is too large:
  \<^verbatim>\<open>scale = min(1280 / width, 720 / height)\<close>, \<^verbatim>\<open>new_width = int(width * scale)\<close>,
  \<^verbatim>\<open>new_height = int(height * scale)\<close>.
\<close>

definition scaled_size :: "int \<Rightarrow> int \<Rightarrow> exn + (int \<times> int)" where
  "scaled_size width height =
     and_then (py_truediv 1280 width) (\<lambda>sx.
     and_then (py_truediv 720 height) (\<lambda>sy.
       let scale = min sx sy in
       and_then (py_int_mul_float width scale) (\<lambda>fw.
       and_then (py_int fw) (\<lambda>new_width.
       and_then (py_int_mul_float height scale) (\<lambda>fh.
       and_then (py_int fh) (\<lambda>new_height.
         Inr (new_width, new_height)))))))"

definition LaneDetector_init :: "opencv \<Rightarrow> string \<Rightarrow> LaneDetector prog" where
  "LaneDetector_init cv path =
     bind (cv2_imread cv path) (\<lambda>img.
       case img of
         None \<Rightarrow> raise (ValueError (''Could not load image: '' @ path))
       | Some original \<Rightarrow>
           bind (deref original) (\<lambda>a.
           bind (liftE (shape2 (take 2 (shape a)))) (\<lambda>(height, width).
             if width > 1280 \<or> height > 720 then
               bind (liftE (scaled_size width height)) (\<lambda>(new_width, new_height).
               bind (cv2_resize cv original (new_width, new_height)) (\<lambda>resized_image.
                 ret \<lparr>original_image = resized_image, image_path = path\<rparr>))
             else ret \<lparr>original_image = original, image_path = path\<rparr>)))"

subsection \<open>\<^verbatim>\<open>LaneDetector.detect_lanes\<close>\<close>

text \<open>\<^verbatim>\<open>int(height * percent / 100)\<close>.\<close>

definition percent_pixel :: "int \<Rightarrow> int \<Rightarrow> exn + int" where
  "percent_pixel height percent =
     (case py_truediv (height * percent) 100 of
        Inl e \<Rightarrow> Inl e
      | Inr q \<Rightarrow> py_int (Some q))"

text \<open>The four corners of the region of interest, as the source lists them.\<close>

definition roi_corners :: "int \<Rightarrow> int \<Rightarrow> int \<Rightarrow> point list" where
  "roi_corners height width roi_top_pixel =
     [(0, height), (0, roi_top_pixel), (width, roi_top_pixel), (width, height)]"

text \<open>
  The loop over the rows of \<^verbatim>\<open>lines\<close>: each row is drawn with \<^verbatim>\<open>cv2.line\<close> in green,
  two pixels wide, in the order of the array.
\<close>

fun draw_lines :: "opencv \<Rightarrow> addr \<Rightarrow> segment list \<Rightarrow> unit prog" where
  "draw_lines cv result_image [] = ret ()"
| "draw_lines cv result_image ((x1, y1, x2, y2) # rest) =
     bind (cv2_line cv result_image (x1, y1) (x2, y2) (0, 255, 0) 2) (\<lambda>_.
       draw_lines cv result_image rest)"

definition hough_theta :: real where
  "hough_theta = round_to_double (np_pi / 180)"

definition detect_lanes ::
  "opencv \<Rightarrow> LaneDetector \<Rightarrow> int \<Rightarrow> int \<Rightarrow> int \<Rightarrow> int \<Rightarrow> int \<Rightarrow> int \<Rightarrow> int \<Rightarrow>
   (addr \<times> addr \<times> segment list option) prog" where
  "detect_lanes cv self canny_low canny_high hough_threshold hough_min_length hough_max_gap
       roi_top roi_bottom =
     bind (cv2_cvtColor_BGR2GRAY cv (original_image self)) (\<lambda>gray.
     bind (cv2_GaussianBlur cv gray (5, 5) 0) (\<lambda>blurred.
     bind (cv2_Canny cv blurred canny_low canny_high) (\<lambda>edges.
     bind (deref edges) (\<lambda>edges_array.
     bind (liftE (shape2 (shape edges_array))) (\<lambda>(height, width).
     bind (np_zeros_like edges) (\<lambda>roi_mask.
     bind (liftE (percent_pixel height roi_top)) (\<lambda>roi_top_pixel.
     bind (liftE (percent_pixel height roi_bottom)) (\<lambda>roi_bottom_pixel.
     bind (liftE (np_array_int32 (roi_corners height width roi_top_pixel))) (\<lambda>vertices.
     bind (cv2_fillPoly cv roi_mask [vertices] 255) (\<lambda>_.
     bind (cv2_bitwise_and edges roi_mask) (\<lambda>edges_roi.
     bind (cv2_HoughLinesP cv edges_roi 1 hough_theta hough_threshold hough_min_length
             hough_max_gap) (\<lambda>lines.
     bind (ndarray_copy (original_image self)) (\<lambda>result_image.
     bind (case lines of None \<Rightarrow> ret () | Some rows \<Rightarrow> draw_lines cv result_image rows) (\<lambda>_.
     bind (cv2_polylines cv result_image [vertices] True (255, 0, 0) 2) (\<lambda>_.
       ret (result_image, edges, lines))))))))))))))))"

subsection \<open>The arrays of a run\<close>

text \<open>
  The same statements on array values, without the store: the loop over the rows, and
  every array that \<^verbatim>\<open>detect_lanes\<close> makes from the image \<open>img\<close>, in the order of the
  source.  An exception of a step is the exception of the whole.
\<close>

fun drawn_rows :: "opencv \<Rightarrow> segment list \<Rightarrow> ndarray \<Rightarrow> exn + ndarray" where
  "drawn_rows cv [] a = Inr a"
| "drawn_rows cv ((x1, y1, x2, y2) # rest) a =
     (case with_line cv (x1, y1) (x2, y2) (0, 255, 0) 2 a of
        Inl e \<Rightarrow> Inl e
      | Inr a' \<Rightarrow> drawn_rows cv rest a')"

record detection =
  tr_gray :: ndarray
  tr_blurred :: ndarray
  tr_edges :: ndarray
  tr_vertices :: "point list"
  tr_roi_mask :: ndarray
  tr_edges_roi :: ndarray
  tr_lines :: "segment list option"
  tr_result_image :: ndarray

definition detect_value ::
  "opencv \<Rightarrow> ndarray \<Rightarrow> int \<Rightarrow> int \<Rightarrow> int \<Rightarrow> int \<Rightarrow> int \<Rightarrow> int \<Rightarrow> int \<Rightarrow> exn + detection" where
  "detect_value cv img canny_low canny_high hough_threshold hough_min_length hough_max_gap
       roi_top roi_bottom =
     and_then (gray_of cv img) (\<lambda>gray.
     and_then (blurred_of cv (5, 5) 0 gray) (\<lambda>blurred.
     and_then (canny_of cv canny_low canny_high blurred) (\<lambda>edges.
     and_then (shape2 (shape edges)) (\<lambda>(height, width).
     and_then (zeros_like edges) (\<lambda>zeros.
     and_then (percent_pixel height roi_top) (\<lambda>roi_top_pixel.
     and_then (percent_pixel height roi_bottom) (\<lambda>roi_bottom_pixel.
     and_then (np_array_int32 (roi_corners height width roi_top_pixel)) (\<lambda>vertices.
     and_then (filled cv [vertices] 255 zeros) (\<lambda>roi_mask.
     and_then (anded edges roi_mask) (\<lambda>edges_roi.
     and_then (hough_lines cv 1 hough_theta hough_threshold hough_min_length hough_max_gap
                 edges_roi) (\<lambda>lines.
     and_then (drawn_rows cv (case lines of None \<Rightarrow> [] | Some rows \<Rightarrow> rows) img) (\<lambda>drawn.
     and_then (with_polylines cv [vertices] True (255, 0, 0) 2 drawn) (\<lambda>result_image.
       Inr \<lparr>tr_gray = gray, tr_blurred = blurred, tr_edges = edges, tr_vertices = vertices,
            tr_roi_mask = roi_mask, tr_edges_roi = edges_roi, tr_lines = lines,
            tr_result_image = result_image\<rparr>)))))))))))))"

subsection \<open>The stages of the specification\<close>

text \<open>
  The specification describes \<^verbatim>\<open>detect\<close> as a function of the image and the
  parameters, in six stages.  The definitions below follow its words, on array values:
  the edge map (grey-scale conversion, 5 by 5 blur with no explicit deviation, edge
  detection with the two thresholds), the trapezoid of the region of interest, the
  masked edge map, the line extraction and the rendering (every segment first, the
  outline last).  They are compared with \<^verbatim>\<open>detect_lanes\<close> in the properties.
\<close>

definition edge_map :: "opencv \<Rightarrow> int \<Rightarrow> int \<Rightarrow> ndarray \<Rightarrow> exn + ndarray" where
  "edge_map cv canny_low canny_high img =
     and_then (gray_of cv img) (\<lambda>gray.
     and_then (blurred_of cv (5, 5) 0 gray) (\<lambda>blurred.
       canny_of cv canny_low canny_high blurred))"

definition roi_vertices :: "ndarray \<Rightarrow> int \<Rightarrow> int \<Rightarrow> exn + point list" where
  "roi_vertices edges roi_top roi_bottom =
     and_then (shape2 (shape edges)) (\<lambda>(height, width).
     and_then (percent_pixel height roi_top) (\<lambda>roi_top_pixel.
     and_then (percent_pixel height roi_bottom) (\<lambda>roi_bottom_pixel.
       np_array_int32 (roi_corners height width roi_top_pixel))))"

definition roi_mask_of :: "opencv \<Rightarrow> point list \<Rightarrow> ndarray \<Rightarrow> exn + ndarray" where
  "roi_mask_of cv vertices edges =
     filled cv [vertices] 255
       \<lparr>shape = shape edges, data = replicate (length (data edges)) 0\<rparr>"

definition render ::
  "opencv \<Rightarrow> segment list option \<Rightarrow> point list \<Rightarrow> ndarray \<Rightarrow> exn + ndarray" where
  "render cv lines vertices img =
     and_then (drawn_rows cv (case lines of None \<Rightarrow> [] | Some rows \<Rightarrow> rows) img) (\<lambda>drawn.
       with_polylines cv [vertices] True (255, 0, 0) 2 drawn)"

definition annotate ::
  "opencv \<Rightarrow> ndarray \<Rightarrow> ndarray \<Rightarrow> int \<Rightarrow> int \<Rightarrow> int \<Rightarrow> int \<Rightarrow> int \<Rightarrow>
   exn + ndarray \<times> segment list option" where
  "annotate cv img edges hough_threshold hough_min_length hough_max_gap roi_top roi_bottom =
     and_then (roi_vertices edges roi_top roi_bottom) (\<lambda>vertices.
     and_then (roi_mask_of cv vertices edges) (\<lambda>roi_mask.
     and_then (anded edges roi_mask) (\<lambda>edges_roi.
     and_then (hough_lines cv 1 hough_theta hough_threshold hough_min_length hough_max_gap
                 edges_roi) (\<lambda>lines.
     and_then (render cv lines vertices img) (\<lambda>result_image.
       Inr (result_image, lines))))))"

definition detect ::
  "opencv \<Rightarrow> ndarray \<Rightarrow> int \<Rightarrow> int \<Rightarrow> int \<Rightarrow> int \<Rightarrow> int \<Rightarrow> int \<Rightarrow> int \<Rightarrow>
   exn + ndarray \<times> ndarray \<times> segment list option" where
  "detect cv img canny_low canny_high hough_threshold hough_min_length hough_max_gap
       roi_top roi_bottom =
     and_then (edge_map cv canny_low canny_high img) (\<lambda>edges.
     and_then (annotate cv img edges hough_threshold hough_min_length hough_max_gap
                 roi_top roi_bottom) (\<lambda>(result_image, lines).
       Inr (result_image, edges, lines)))"

text \<open>
  What a caller can see of a run: the exception, or the contents of the annotated image
  and of the edge map together with the rows of \<^verbatim>\<open>lines\<close>.
\<close>

definition observe ::
  "(exn + addr \<times> addr \<times> segment list option) \<times> heap \<Rightarrow>
   exn + ndarray \<times> ndarray \<times> segment list option" where
  "observe r =
     (case r of
        (Inl e, h) \<Rightarrow> Inl e
      | (Inr (result_image, edges, lines), h) \<Rightarrow> Inr (h ! result_image, h ! edges, lines))"

section \<open>The interactive tuner\<close>

subsection \<open>Slider widgets and presets\<close>

text \<open>
  A \<^verbatim>\<open>tkinter.Scale\<close> holds an integer between its \<^verbatim>\<open>from_\<close> and \<^verbatim>\<open>to\<close> options
  (resolution 1).  \<^verbatim>\<open>Scale.set\<close> stores the value clamped to that range, \<^verbatim>\<open>Scale.get\<close>
  reads it back.  A new scale starts at \<^verbatim>\<open>from_\<close>.
\<close>

record Scale =
  scale_from :: int
  scale_to :: int
  scale_value :: int

definition new_Scale :: "int \<Rightarrow> int \<Rightarrow> Scale" where
  "new_Scale lo hi = \<lparr>scale_from = lo, scale_to = hi, scale_value = lo\<rparr>"

definition Scale_set :: "Scale \<Rightarrow> int \<Rightarrow> Scale" where
  "Scale_set s v =
     s\<lparr>scale_value := (if v < scale_from s then scale_from s
                        else if scale_to s < v then scale_to s else v)\<rparr>"

definition Scale_get :: "Scale \<Rightarrow> int" where
  "Scale_get s = scale_value s"

text \<open>
  The state of an \<^verbatim>\<open>InteractiveParameterTuner\<close>: its detector, the seven sliders
  (\<^verbatim>\<open>self.canny_low\<close> and so on), the seven value labels and the info label.
\<close>

record Tuner =
  detector :: LaneDetector
  canny_low_scale :: Scale
  canny_high_scale :: Scale
  hough_threshold_scale :: Scale
  hough_min_length_scale :: Scale
  hough_max_gap_scale :: Scale
  roi_top_scale :: Scale
  roi_bottom_scale :: Scale
  canny_low_label :: string
  canny_high_label :: string
  hough_threshold_label :: string
  hough_min_length_label :: string
  hough_max_gap_label :: string
  roi_top_label :: string
  roi_bottom_label :: string
  info_label :: string

text \<open>\<^verbatim>\<open>create_widgets\<close>: every slider is created with its range and then set.\<close>

definition create_widgets :: "LaneDetector \<Rightarrow> Tuner" where
  "create_widgets d =
     \<lparr>detector = d,
      canny_low_scale = Scale_set (new_Scale 1 200) 50,
      canny_high_scale = Scale_set (new_Scale 50 500) 281,
      hough_threshold_scale = Scale_set (new_Scale 10 200) 66,
      hough_min_length_scale = Scale_set (new_Scale 10 300) 50,
      hough_max_gap_scale = Scale_set (new_Scale 1 50) 10,
      roi_top_scale = Scale_set (new_Scale 0 100) 38,
      roi_bottom_scale = Scale_set (new_Scale 0 100) 100,
      canny_low_label = ''50'',
      canny_high_label = ''281'',
      hough_threshold_label = ''66'',
      hough_min_length_label = ''50'',
      hough_max_gap_label = ''10'',
      roi_top_label = ''38'',
      roi_bottom_label = ''100'',
      info_label = []\<rparr>"

text \<open>The table \<^verbatim>\<open>preset_buttons\<close> of \<^verbatim>\<open>create_widgets\<close>.\<close>

definition preset_buttons :: "(string \<times> int \<times> int \<times> int \<times> int \<times> int) list" where
  "preset_buttons =
     [(''Conservative'', 30, 90, 80, 100, 5),
      (''Balanced'', 50, 150, 50, 50, 10),
      (''Aggressive'', 20, 60, 30, 30, 20)]"

text \<open>
  \<^verbatim>\<open>load_preset\<close> sets five sliders, in this order.  Each \<^verbatim>\<open>set\<close> also schedules the
  slider's command, \<^verbatim>\<open>update_display\<close>, which reads the sliders and writes labels only;
  it is modelled on its own below.
\<close>

definition load_preset :: "Tuner \<Rightarrow> int \<Rightarrow> int \<Rightarrow> int \<Rightarrow> int \<Rightarrow> int \<Rightarrow> Tuner" where
  "load_preset self clow chigh hthresh hlen hgap =
     (let self = self\<lparr>canny_low_scale := Scale_set (canny_low_scale self) clow\<rparr>;
          self = self\<lparr>canny_high_scale := Scale_set (canny_high_scale self) chigh\<rparr>;
          self = self\<lparr>hough_threshold_scale := Scale_set (hough_threshold_scale self) hthresh\<rparr>;
          self = self\<lparr>hough_min_length_scale := Scale_set (hough_min_length_scale self) hlen\<rparr>;
          self = self\<lparr>hough_max_gap_scale := Scale_set (hough_max_gap_scale self) hgap\<rparr>
      in self)"

text \<open>
  Pressing the button labelled \<open>name\<close> runs the command bound to it in the loop over
  \<^verbatim>\<open>preset_buttons\<close>: \<^verbatim>\<open>load_preset\<close> with the five numbers of that row.  There is no
  button for a name that is not in the table.
\<close>

definition press_preset :: "Tuner \<Rightarrow> string \<Rightarrow> Tuner option" where
  "press_preset self name =
     (case map_of preset_buttons name of
        None \<Rightarrow> None
      | Some (c1, c2, ht, hl, hg) \<Rightarrow> Some (load_preset self c1 c2 ht hl hg))"

text \<open>The slider ranges are fixed when the widgets are created.\<close>

definition same_ranges :: "Scale \<Rightarrow> Scale \<Rightarrow> bool" where
  "same_ranges a b \<longleftrightarrow> scale_from a = scale_from b \<and> scale_to a = scale_to b"

definition tuner_ranges_ok :: "Tuner \<Rightarrow> bool" where
  "tuner_ranges_ok t \<longleftrightarrow>
     same_ranges (canny_low_scale t) (canny_low_scale (create_widgets (detector t))) \<and>
     same_ranges (canny_high_scale t) (canny_high_scale (create_widgets (detector t))) \<and>
     same_ranges (hough_threshold_scale t) (hough_threshold_scale (create_widgets (detector t))) \<and>
     same_ranges (hough_min_length_scale t) (hough_min_length_scale (create_widgets (detector t))) \<and>
     same_ranges (hough_max_gap_scale t) (hough_max_gap_scale (create_widgets (detector t))) \<and>
     same_ranges (roi_top_scale t) (roi_top_scale (create_widgets (detector t))) \<and>
     same_ranges (roi_bottom_scale t) (roi_bottom_scale (create_widgets (detector t)))"

subsection \<open>The summary in \<^verbatim>\<open>update_display\<close>\<close>

text \<open>
  The length of a row, as the source computes it: the differences, the squares and
  their sum are \<^verbatim>\<open>int32\<close> arithmetic and wrap around; \<^verbatim>\<open>np.sqrt\<close> of a negative
  number is a NaN, written \<open>None\<close>.  The square root and the mean are taken in the real
  numbers: the rounding of \<^verbatim>\<open>np.sqrt\<close> and of the additions inside \<^verbatim>\<open>np.mean\<close> to
  doubles is not modelled.
\<close>

definition np_sqrt :: "int32 \<Rightarrow> real option" where
  "np_sqrt v = (if sint v < 0 then None else Some (sqrt (real_of_int (sint v))))"

definition line_length :: "segment \<Rightarrow> real option" where
  "line_length s = (case s of (x1, y1, x2, y2) \<Rightarrow> np_sqrt ((x2 - x1) ^ 2 + (y2 - y1) ^ 2))"

definition np_mean :: "real option list \<Rightarrow> real option" where
  "np_mean xs =
     (if list_all (\<lambda>x. x \<noteq> None) xs
      then Some (sum_list (map the xs) / real (length xs)) else None)"

definition num_lines :: "segment list option \<Rightarrow> nat" where
  "num_lines lines = (case lines of None \<Rightarrow> 0 | Some rows \<Rightarrow> length rows)"

definition info_text :: "segment list option \<Rightarrow> string" where
  "info_text lines =
     ''Lines detected: '' @ str_nat (num_lines lines) @ [CHR 0x0A, CHR 0x0A] @
     (case lines of
        None \<Rightarrow> []
      | Some rows \<Rightarrow>
          if length rows > 0
          then ''Avg line length: '' @ format_1f (np_mean (map line_length rows)) @ [CHR 0x0A]
          else [])"

text \<open>
  The statistic as the specification words it: the mean over the rows of
  \<open>sqrt ((x2 - x1)\<^sup>2 + (y2 - y1)\<^sup>2)\<close>, on the coordinates read as integers.
\<close>

definition euclidean_length :: "segment \<Rightarrow> real" where
  "euclidean_length s =
     (case s of (x1, y1, x2, y2) \<Rightarrow>
        sqrt (real_of_int ((sint x2 - sint x1) ^ 2 + (sint y2 - sint y1) ^ 2)))"

definition mean_euclidean_length :: "segment list \<Rightarrow> real" where
  "mean_euclidean_length rows = sum_list (map euclidean_length rows) / real (length rows)"

text \<open>
  \<^verbatim>\<open>update_display\<close>: the labels take the slider values, the detector runs on them and
  the info label takes the summary.  Handing the annotated image to the canvas
  (\<^verbatim>\<open>display_image\<close>) belongs to the window toolkit and is left out.
\<close>

definition update_display :: "opencv \<Rightarrow> Tuner \<Rightarrow> (Tuner \<times> addr) prog" where
  "update_display cv self =
     (let self = self\<lparr>canny_low_label := str_int (Scale_get (canny_low_scale self))\<rparr>;
          self = self\<lparr>canny_high_label := str_int (Scale_get (canny_high_scale self))\<rparr>;
          self = self\<lparr>hough_threshold_label := str_int (Scale_get (hough_threshold_scale self))\<rparr>;
          self = self\<lparr>hough_min_length_label := str_int (Scale_get (hough_min_length_scale self))\<rparr>;
          self = self\<lparr>hough_max_gap_label := str_int (Scale_get (hough_max_gap_scale self))\<rparr>;
          self = self\<lparr>roi_top_label := str_int (Scale_get (roi_top_scale self))\<rparr>;
          self = self\<lparr>roi_bottom_label := str_int (Scale_get (roi_bottom_scale self))\<rparr>
      in bind (detect_lanes cv (detector self)
                 (Scale_get (canny_low_scale self)) (Scale_get (canny_high_scale self))
                 (Scale_get (hough_threshold_scale self))
                 (Scale_get (hough_min_length_scale self))
                 (Scale_get (hough_max_gap_scale self))
                 (Scale_get (roi_top_scale self)) (Scale_get (roi_bottom_scale self)))
           (\<lambda>(result, edges, lines).
              ret (self\<lparr>info_label := info_text lines\<rparr>, result)))"

section \<open>A stand-in library for worked examples\<close>

text \<open>
  A library that knows four files, finds no edge and no segment, and draws nothing:
  enough to run the detector on concrete images.  White stays white under the
  grey-scale conversion and the blur, as it does in OpenCV.
\<close>

definition blank_library :: opencv where
  "blank_library =
     \<lparr>imread = (\<lambda>path.
        if path = ''white_50x50.png''
        then Some \<lparr>shape = [50, 50, 3], data = replicate 7500 255\<rparr>
        else if path = ''road_2560x1440.jpg''
        then Some \<lparr>shape = [1440, 2560, 3], data = replicate 11059200 255\<rparr>
        else if path = ''road_1600x901.jpg''
        then Some \<lparr>shape = [901, 1600, 3], data = replicate 4324800 255\<rparr>
        else if path = ''strip_10000x1.png''
        then Some \<lparr>shape = [1, 10000, 3], data = replicate 30000 255\<rparr>
        else None),
      resize = (\<lambda>a (w, h). Inr (replicate (h * w * prod_list (drop 2 (shape a))) 255)),
      cvtColor_BGR2GRAY = (\<lambda>a. Inr (replicate (prod_list (take 2 (shape a))) 255)),
      GaussianBlur = (\<lambda>a ksize sigmaX. Inr (data a)),
      Canny = (\<lambda>a threshold1 threshold2. Inr (replicate (length (data a)) 0)),
      fillPoly = (\<lambda>a pts color. Inr (replicate (length (data a)) color)),
      HoughLinesP = (\<lambda>a rho theta threshold minLineLength maxLineGap. Inr []),
      line = (\<lambda>a pt1 pt2 color thickness. Inr (data a)),
      polylines = (\<lambda>a pts isClosed color thickness. Inr (data a))\<rparr>"

section \<open>Steps that may raise\<close>

lemma and_then_Inl [simp]: "and_then (Inl e) f = Inl e"
  by (simp add: and_then_def)

lemma and_then_Inr [simp]: "and_then (Inr x) f = f x"
  by (simp add: and_then_def)

section \<open>Properties of the rounding\<close>

lemma log2_floor_unique:
  "2 powi k \<le> x \<Longrightarrow> x < 2 powi (k + 1) \<Longrightarrow> \<bar>k\<bar> \<le> int n \<Longrightarrow> log2_floor n x e = e + k"
proof (induction n arbitrary: x e k)
  case 0
  then show ?case by simp
next
  case (Suc n)
  show ?case
  proof (cases "x < 1")
    case True
    with Suc.prems have k: "k < 0"
      by (smt (verit) one_le_power_int)
    have "2 powi (k + 1) \<le> 2 * x" "2 * x < 2 powi (k + 1 + 1)"
      using Suc.prems by (simp_all add: power_int_add)
    moreover have "\<bar>k + 1\<bar> \<le> int n" using k Suc.prems by simp
    ultimately have "log2_floor n (2 * x) (e - 1) = e - 1 + (k + 1)"
      by (rule Suc.IH)
    with True show ?thesis by simp
  next
    case False
    show ?thesis
    proof (cases "2 \<le> x")
      case True
      with Suc.prems have k: "0 < k"
        by (smt (verit) power_int_0_right power_int_strict_increasing power_int_add power_int_1_right
            power_int_mono_iff)
      have "2 powi (k - 1) \<le> x / 2" "x / 2 < 2 powi (k - 1 + 1)"
        using Suc.prems by (simp_all add: power_int_diff power_int_add)
      moreover have "\<bar>k - 1\<bar> \<le> int n" using k Suc.prems by simp
      ultimately have "log2_floor n (x / 2) (e + 1) = e + 1 + (k - 1)"
        by (rule Suc.IH)
      with True False show ?thesis by simp
    next
      case F2: False
      have "k = 0"
      proof (rule ccontr)
        assume "k \<noteq> 0"
        then consider "k \<le> -1" | "1 \<le> k" by linarith
        then show False
        proof cases
          case 1
          then have "(2::real) powi (k + 1) \<le> 2 powi 0"
            by (intro power_int_increasing) auto
          with Suc.prems False show ?thesis by simp
        next
          case 2
          then have "(2::real) powi 1 \<le> 2 powi k"
            by (intro power_int_increasing) auto
          with Suc.prems F2 show ?thesis by simp
        qed
      qed
      with False F2 show ?thesis by simp
    qed
  qed
qed


lemma log2_floor_bounds:
  "0 < x \<Longrightarrow> 2 powi (- int n) \<le> x \<Longrightarrow> x < 2 powi (int n + 1) \<Longrightarrow>
   2 powi (log2_floor n x e - e) \<le> x \<and> x < 2 powi (log2_floor n x e - e + 1)"
proof (induction n arbitrary: x e)
  case 0
  then show ?case by simp
next
  case (Suc n)
  show ?case
  proof (cases "x < 1")
    case True
    have a: "2 powi (- int n) \<le> 2 * x"
    proof -
      have "(2::real) powi (- int (Suc n) + 1) = 2 powi (- int (Suc n)) * 2"
        by (subst power_int_add) simp_all
      moreover have "- int (Suc n) + 1 = - int n" by simp
      ultimately have "(2::real) powi (- int n) = 2 * 2 powi (- int (Suc n))"
        by simp
      with Suc.prems show ?thesis by simp
    qed
    have b: "2 * x < 2 powi (int n + 1)"
    proof -
      have "(2::real) powi 1 \<le> 2 powi (int n + 1)"
        by (intro power_int_increasing) auto
      with True show ?thesis by simp
    qed
    from Suc.IH [of "2 * x" "e - 1", OF _ a b] Suc.prems
    have "2 powi (log2_floor n (2 * x) (e - 1) - (e - 1)) \<le> 2 * x \<and>
          2 * x < 2 powi (log2_floor n (2 * x) (e - 1) - (e - 1) + 1)" by simp
    moreover have "log2_floor n (2 * x) (e - 1) - (e - 1) = (log2_floor n (2 * x) (e - 1) - e) + 1"
      by simp
    ultimately have "2 powi ((log2_floor n (2 * x) (e - 1) - e) + 1) \<le> 2 * x \<and>
          2 * x < 2 powi ((log2_floor n (2 * x) (e - 1) - e) + 1 + 1)" by simp
    then have "2 powi (log2_floor n (2 * x) (e - 1) - e) \<le> x \<and>
          x < 2 powi ((log2_floor n (2 * x) (e - 1) - e) + 1)"
      by (simp add: power_int_add)
    with True show ?thesis by simp
  next
    case False
    show ?thesis
    proof (cases "2 \<le> x")
      case True
      have a: "2 powi (- int n) \<le> x / 2"
      proof -
        have "(2::real) powi (- int n) \<le> 2 powi 0"
          by (intro power_int_increasing) auto
        with True show ?thesis by simp
      qed
      have b: "x / 2 < 2 powi (int n + 1)"
      proof -
        have "(2::real) powi (int (Suc n) + 1) = 2 * 2 powi (int n + 1)"
          by (simp add: power_int_add)
        with Suc.prems show ?thesis by simp
      qed
      from Suc.IH [of "x / 2" "e + 1", OF _ a b] Suc.prems
      have "2 powi (log2_floor n (x / 2) (e + 1) - (e + 1)) \<le> x / 2 \<and>
            x / 2 < 2 powi (log2_floor n (x / 2) (e + 1) - (e + 1) + 1)" by simp
      moreover have "log2_floor n (x / 2) (e + 1) - (e + 1) = (log2_floor n (x / 2) (e + 1) - e) - 1"
        by simp
      ultimately have "2 powi ((log2_floor n (x / 2) (e + 1) - e) - 1) \<le> x / 2 \<and>
            x / 2 < 2 powi ((log2_floor n (x / 2) (e + 1) - e) - 1 + 1)" by simp
      then have "2 powi (log2_floor n (x / 2) (e + 1) - e) \<le> x \<and>
            x < 2 powi ((log2_floor n (x / 2) (e + 1) - e) + 1)"
        by (simp add: power_int_diff power_int_add)
      with True False show ?thesis by simp
    next
      case F2: False
      with False show ?thesis by simp
    qed
  qed
qed

lemma log2_floor_less:
  "x < 2 powi K \<Longrightarrow> 1 \<le> K \<Longrightarrow> log2_floor n x e < e + K"
proof (induction n arbitrary: x e K)
  case 0
  then show ?case by simp
next
  case (Suc n)
  show ?case
  proof (cases "x < 1")
    case True
    have "2 * x < 2 powi (K + 1)" using Suc.prems by (simp add: power_int_add)
    from Suc.IH [OF this, of "e - 1"] Suc.prems True show ?thesis by simp
  next
    case False
    show ?thesis
    proof (cases "2 \<le> x")
      case True
      have K2: "2 \<le> K"
      proof (rule ccontr)
        assume "\<not> 2 \<le> K"
        with Suc.prems have "K = 1" by simp
        with Suc.prems True show False by simp
      qed
      have "x / 2 < 2 powi (K - 1)" using Suc.prems by (simp add: power_int_diff)
      from Suc.IH [OF this, of "e + 1"] K2 True False show ?thesis by simp
    next
      case F2: False
      with False Suc.prems show ?thesis by simp
    qed
  qed
qed

lemma round_half_even_abs: "\<bar>of_int (round_half_even y) - y\<bar> \<le> 1 / 2"
  unfolding round_half_even_def Let_def by (auto; linarith)

lemma round_half_even_of_int [simp]: "round_half_even (of_int k) = k"
  by (simp add: round_half_even_def)

lemma round_half_even_ge: "of_int k \<le> y \<Longrightarrow> k \<le> round_half_even y"
  unfolding round_half_even_def Let_def by (auto simp: le_floor_iff; linarith)

lemma round_half_even_le: "y \<le> of_int k \<Longrightarrow> round_half_even y \<le> k"
proof -
  assume a: "y \<le> of_int k"
  show ?thesis
  proof (cases "y = of_int k")
    case True
    then show ?thesis by simp
  next
    case False
    with a have "y < of_int k" by simp
    then have "\<lfloor>y\<rfloor> < k" by (simp add: floor_less_iff)
    then show ?thesis
      unfolding round_half_even_def Let_def by auto
  qed
qed

lemma round_half_even_unique:
  "\<bar>of_int m - y\<bar> < 1 / 2 \<Longrightarrow> round_half_even y = m"
proof -
  assume a: "\<bar>of_int m - y\<bar> < 1 / 2"
  have b: "\<bar>of_int (round_half_even y) - y\<bar> \<le> 1 / 2" by (rule round_half_even_abs)
  from a b have "\<bar>(of_int (round_half_even y) :: real) - of_int m\<bar> < 1" by linarith
  then have "\<bar>of_int (round_half_even y - m) :: real\<bar> < 1" by simp
  then have "\<bar>round_half_even y - m\<bar> < 1"
    by (metis of_int_abs of_int_less_1_iff)
  then show ?thesis by simp
qed


lemma ulp_exponent_eq:
  assumes "2 powi k \<le> \<bar>x\<bar>" "\<bar>x\<bar> < 2 powi (k + 1)" "- 1022 \<le> k" "k \<le> 2200"
  shows "ulp_exponent x = k - 52"
proof -
  have "\<bar>k\<bar> \<le> int 2200" using assms by simp
  from log2_floor_unique [OF assms(1,2) this, of 0] assms(3)
  show ?thesis by (simp add: ulp_exponent_def)
qed

lemma round_to_double_eqI:
  assumes "2 powi k \<le> \<bar>x\<bar>" "\<bar>x\<bar> < 2 powi (k + 1)" "- 1022 \<le> k" "k \<le> 2200"
    and "\<bar>of_int m - x / 2 powi (k - 52)\<bar> < 1 / 2"
  shows "round_to_double x = of_int m * 2 powi (k - 52)"
proof -
  have "0 < \<bar>x\<bar>" using assms(1) by (smt (verit) zero_less_power_int)
  then have "x \<noteq> 0" by simp
  moreover have "ulp_exponent x = k - 52" using assms(1-4) by (rule ulp_exponent_eq)
  moreover have "round_half_even (x / 2 powi (k - 52)) = m"
    using assms(5) by (rule round_half_even_unique)
  ultimately show ?thesis by (simp add: round_to_double_def Let_def)
qed

lemma round_to_double_error:
  assumes "2 powi (- 1022) \<le> \<bar>x\<bar>" "\<bar>x\<bar> < 2 powi 1024"
  shows "\<bar>round_to_double x - x\<bar> \<le> \<bar>x\<bar> * 2 powi (- 53)"
proof -
  have pos: "0 < \<bar>x\<bar>" using assms(1) by (smt (verit) zero_less_power_int)
  define k where "k = log2_floor 2200 \<bar>x\<bar> 0"
  have lo: "(2::real) powi (- int 2200) \<le> 2 powi (- 1022)"
    by (intro power_int_increasing) auto
  have hi: "(2::real) powi 1024 \<le> 2 powi (int 2200 + 1)"
    by (intro power_int_increasing) auto
  from log2_floor_bounds [OF pos, of 2200 0] lo hi assms
  have kb: "2 powi k \<le> \<bar>x\<bar>" "\<bar>x\<bar> < 2 powi (k + 1)"
    by (simp_all add: k_def)
  have k_lo: "- 1022 \<le> k"
  proof (rule ccontr)
    assume "\<not> - 1022 \<le> k"
    then have "k + 1 \<le> - 1022" by simp
    then have "(2::real) powi (k + 1) \<le> 2 powi (- 1022)"
      by (intro power_int_increasing) auto
    with kb(2) assms(1) show False by simp
  qed
  have k_hi: "k \<le> 1023"
  proof (rule ccontr)
    assume "\<not> k \<le> 1023"
    then have "1024 \<le> k" by simp
    then have "(2::real) powi 1024 \<le> 2 powi k"
      by (intro power_int_increasing) auto
    with kb(1) assms(2) show False by simp
  qed
  have u: "ulp_exponent x = k - 52"
    using kb k_lo k_hi by (intro ulp_exponent_eq) auto
  define p :: real where "p = 2 powi (k - 52)"
  have p_pos: "0 < p" by (simp add: p_def)
  have r: "round_to_double x = of_int (round_half_even (x / p)) * p"
    using pos u by (auto simp: round_to_double_def p_def Let_def)
  have "\<bar>of_int (round_half_even (x / p)) - x / p\<bar> \<le> 1 / 2"
    by (rule round_half_even_abs)
  then have "\<bar>of_int (round_half_even (x / p)) - x / p\<bar> * p \<le> 1 / 2 * p"
    using p_pos by (intro mult_right_mono) auto
  moreover have "\<bar>of_int (round_half_even (x / p)) - x / p\<bar> * p
      = \<bar>of_int (round_half_even (x / p)) * p - x\<bar>"
  proof -
    have "\<bar>of_int (round_half_even (x / p)) - x / p\<bar> * p
        = \<bar>(of_int (round_half_even (x / p)) - x / p) * p\<bar>"
      using p_pos by (simp add: abs_mult)
    also have "(of_int (round_half_even (x / p)) - x / p) * p
        = of_int (round_half_even (x / p)) * p - x"
      using p_pos by (simp add: field_simps)
    finally show ?thesis .
  qed
  ultimately have e1: "\<bar>round_to_double x - x\<bar> \<le> p / 2" using r by simp
  have "p / 2 = 2 powi k * 2 powi (- 53)"
  proof -
    have "k - 52 = k + (- 53) + 1" by simp
    then have "p = 2 powi (k + (- 53) + 1)" by (simp add: p_def)
    also have "\<dots> = 2 powi (k + (- 53)) * 2 powi 1"
      by (rule power_int_add) simp
    also have "(2::real) powi (k + (- 53)) = 2 powi k * 2 powi (- 53)"
      by (rule power_int_add) simp
    finally show ?thesis by simp
  qed
  also have "\<dots> \<le> \<bar>x\<bar> * 2 powi (- 53)"
    using kb(1) by (intro mult_right_mono) auto
  finally show ?thesis using e1 by simp
qed

lemma round_to_double_sandwich:
  assumes "0 \<le> x" "x < 2 ^ 53"
  shows "of_int \<lfloor>x\<rfloor> \<le> round_to_double x \<and> round_to_double x \<le> of_int \<lceil>x\<rceil>"
proof (cases "x = 0")
  case True
  then show ?thesis by (simp add: round_to_double_def)
next
  case False
  define u where "u = ulp_exponent x"
  have "\<bar>x\<bar> < 2 powi 53" using assms by simp
  then have "log2_floor 2200 \<bar>x\<bar> 0 < 0 + 53"
    by (rule log2_floor_less) simp
  then have u0: "u \<le> 0" by (simp add: u_def ulp_exponent_def)
  define s :: nat where "s = nat (- u)"
  have p: "(2::real) powi u = 1 / 2 ^ s"
    using u0 by (simp add: s_def power_int_def field_simps)
  have r: "round_to_double x = of_int (round_half_even (x * 2 ^ s)) / 2 ^ s"
    using False by (simp add: round_to_double_def Let_def u_def [symmetric] p)
  have "of_int (\<lfloor>x\<rfloor> * 2 ^ s) \<le> x * 2 ^ s"
    by (simp add: mult_right_mono)
  then have a: "\<lfloor>x\<rfloor> * 2 ^ s \<le> round_half_even (x * 2 ^ s)"
    by (rule round_half_even_ge)
  have "x * 2 ^ s \<le> of_int (\<lceil>x\<rceil> * 2 ^ s)"
    by (simp add: mult_right_mono)
  then have b: "round_half_even (x * 2 ^ s) \<le> \<lceil>x\<rceil> * 2 ^ s"
    by (rule round_half_even_le)
  from a have "(of_int (\<lfloor>x\<rfloor> * 2 ^ s) :: real) \<le> of_int (round_half_even (x * 2 ^ s))"
    by (simp only: of_int_le_iff)
  then have a': "of_int \<lfloor>x\<rfloor> \<le> round_to_double x"
    by (simp add: r field_simps)
  from b have "(of_int (round_half_even (x * 2 ^ s)) :: real) \<le> of_int (\<lceil>x\<rceil> * 2 ^ s)"
    by (simp only: of_int_le_iff)
  then have b': "round_to_double x \<le> of_int \<lceil>x\<rceil>"
    by (simp add: r field_simps)
  from a' b' show ?thesis ..
qed

lemma round_half_even_minus: "round_half_even (- y) = - round_half_even y"
proof -
  show ?thesis
  proof (cases "y - of_int \<lfloor>y\<rfloor> = 1 / 2")
    case True
    then have y: "y = of_int \<lfloor>y\<rfloor> + 1 / 2" by simp
    have f: "\<lfloor>- y\<rfloor> = - \<lfloor>y\<rfloor> - 1"
      by (subst y) (simp add: floor_eq_iff)
    have d: "- y - of_int \<lfloor>- y\<rfloor> = 1 / 2"
      by (simp add: f) (subst (2) y, simp)
    show ?thesis
      using True d f by (simp add: round_half_even_def Let_def)
  next
    case False
    then have "\<bar>of_int (round_half_even y) - y\<bar> < 1 / 2"
      unfolding round_half_even_def Let_def by (auto; linarith)
    then have "\<bar>of_int (- round_half_even y) - (- y)\<bar> < 1 / 2" by (simp add: abs_minus_commute)
    then show ?thesis by (rule round_half_even_unique)
  qed
qed

lemma ulp_exponent_minus [simp]: "ulp_exponent (- x) = ulp_exponent x"
  by (simp add: ulp_exponent_def)

lemma round_to_double_minus: "round_to_double (- x) = - round_to_double x"
  by (simp add: round_to_double_def Let_def round_half_even_minus)

lemma round_to_double_of_int:
  assumes "\<bar>n\<bar> < 2 ^ 53"
  shows "round_to_double (of_int n) = of_int n"
proof -
  have pos: "round_to_double (of_int m) = of_int m" if "0 \<le> m" "m < 2 ^ 53" for m :: int
  proof -
    have "(of_int m :: real) < of_int (2 ^ 53)"
      using that by (simp only: of_int_less_iff)
    then have "0 \<le> (of_int m :: real)" "(of_int m :: real) < 2 ^ 53"
      using that by simp_all
    from round_to_double_sandwich [OF this] show ?thesis by simp
  qed
  show ?thesis
  proof (cases "0 \<le> n")
    case True
    with assms show ?thesis by (intro pos) auto
  next
    case False
    with assms have "round_to_double (of_int (- n)) = of_int (- n)" by (intro pos) auto
    then show ?thesis by (simp add: round_to_double_minus)
  qed
qed

lemma double_max_ge: "2 ^ 53 \<le> double_max"
  by (simp add: double_max_def)


lemma quotient_100_rounded:
  assumes "0 < n" "n < 2 ^ 53"
  defines "r \<equiv> round_to_double (of_int n / 100)"
  shows "0 < r \<and> r \<le> 2 ^ 53 \<and> \<lfloor>r\<rfloor> = n div 100"
proof -
  define q :: real where "q = of_int n / 100"
  have n_real: "(of_int n :: real) < 2 ^ 53"
  proof -
    have "(of_int n :: real) < of_int (2 ^ 53)" using assms(2) by (simp only: of_int_less_iff)
    then show ?thesis by simp
  qed
  have n1: "1 \<le> (of_int n :: real)" using assms(1) by simp
  have q_lo: "1 / 100 \<le> q" using n1 by (simp add: q_def)
  have q_hi: "q < 2 ^ 53 / 100" using n_real by (simp add: q_def)
  have q_pos: "0 < q" using q_lo by simp
  have fl: "\<lfloor>q\<rfloor> = n div 100"
    unfolding q_def using floor_divide_of_int_eq [of n 100, where ?'a = real] by simp
  have sand: "of_int \<lfloor>q\<rfloor> \<le> r" "r \<le> of_int \<lceil>q\<rceil>"
    using round_to_double_sandwich [of q] q_pos q_hi by (simp_all add: r_def q_def)
  have norm1: "2 powi (- 1022) \<le> \<bar>q\<bar>"
  proof -
    have "(2::real) powi (- 1022) \<le> 2 powi (- 7)"
      by (intro power_int_increasing) auto
    also have "\<dots> \<le> 1 / 100" by (simp add: power_int_minus)
    finally show ?thesis using q_lo by simp
  qed
  have norm2: "\<bar>q\<bar> < 2 powi 1024"
  proof -
    have "q < 2 ^ 53" using q_hi by simp
    also have "(2::real) ^ 53 = 2 powi 53" by simp
    also have "\<dots> \<le> 2 powi 1024" by (intro power_int_increasing) auto
    finally show ?thesis using q_pos by simp
  qed
  have "\<bar>r - q\<bar> \<le> \<bar>q\<bar> * 2 powi (- 53)"
    unfolding r_def q_def [symmetric] using norm1 norm2 by (rule round_to_double_error)
  also have "\<dots> = q / 2 ^ 53" using q_pos by (simp add: power_int_minus field_simps)
  also have "\<dots> < 1 / 100" using q_hi by (simp add: field_simps)
  finally have err: "\<bar>r - q\<bar> < 1 / 100" .
  have r_pos: "0 < r" using err q_lo by linarith
  have "\<lceil>q\<rceil> \<le> 2 ^ 53"
  proof -
    have "q \<le> of_int (2 ^ 53)" using q_hi by simp
    then show ?thesis by (simp only: ceiling_le_iff)
  qed
  then have "(of_int \<lceil>q\<rceil> :: real) \<le> of_int (2 ^ 53)" by (simp only: of_int_le_iff)
  also have "(of_int (2 ^ 53) :: real) = 2 ^ 53" by simp
  finally have r_hi: "r \<le> 2 ^ 53" using sand(2) by linarith
  have "\<lfloor>r\<rfloor> = \<lfloor>q\<rfloor>"
  proof (cases "n mod 100 = 0")
    case True
    then have "n = 100 * (n div 100)" using mult_div_mod_eq [of 100 n] by simp
    then have "(of_int n :: real) = 100 * of_int (n div 100)"
      by (metis of_int_mult of_int_numeral)
    then have "q = of_int (n div 100)" by (simp add: q_def)
    then have "\<lfloor>q\<rfloor> = \<lceil>q\<rceil>" by simp
    with sand have "r = of_int \<lfloor>q\<rfloor>" by simp
    then show ?thesis by simp
  next
    case False
    have "n mod 100 \<le> 99" by simp
    moreover have "n = 100 * (n div 100) + n mod 100" by simp
    ultimately have "n \<le> 100 * (n div 100) + 99" by linarith
    then have "(of_int n :: real) \<le> of_int (100 * (n div 100) + 99)"
      by (simp only: of_int_le_iff)
    then have "q \<le> of_int (n div 100) + 99 / 100" by (simp add: q_def)
    with err have "r < of_int (n div 100) + 1" by linarith
    moreover have "of_int (n div 100) \<le> r" using sand(1) by (simp only: fl)
    ultimately have "\<lfloor>r\<rfloor> = n div 100" by (simp only: floor_eq_iff)
    then show ?thesis by (simp only: fl)
  qed
  with fl r_pos r_hi show ?thesis by simp
qed

lemma percent_pixel_exact:
  assumes "\<bar>height * percent\<bar> < 2 ^ 53"
  shows "percent_pixel height percent =
           Inr (if 0 \<le> height * percent then (height * percent) div 100
                else - ((- (height * percent)) div 100))"
proof -
  define n where "n = height * percent"
  consider "n = 0" | "0 < n" | "n < 0" by linarith
  then show ?thesis
  proof cases
    case 1
    then show ?thesis
      by (simp add: percent_pixel_def py_truediv_def py_int_def n_def [symmetric]
          round_to_double_def double_max_def)
  next
    case 2
    with assms have "n < 2 ^ 53" by (simp add: n_def)
    from quotient_100_rounded [OF 2 this] double_max_ge 2 show ?thesis
      by (simp add: percent_pixel_def py_truediv_def py_int_def n_def [symmetric] Let_def)
  next
    case 3
    then have p: "0 < - n" by simp
    with assms have "- n < 2 ^ 53" by (simp add: n_def)
    from quotient_100_rounded [OF p this]
    have r: "0 < round_to_double (of_int (- n) / 100)"
      "round_to_double (of_int (- n) / 100) \<le> 2 ^ 53"
      "\<lfloor>round_to_double (of_int (- n) / 100)\<rfloor> = (- n) div 100" by simp_all
    have m: "round_to_double (of_int n / 100) = - round_to_double (of_int (- n) / 100)"
      using round_to_double_minus [of "of_int (- n) / 100"] by simp
    have c: "\<lceil>- round_to_double (of_int (- n) / 100)\<rceil> = - ((- n) div 100)"
      using r(3) by (simp add: ceiling_minus)
    show ?thesis
      using 3 r(1,2) double_max_ge c
      by (simp add: percent_pixel_def py_truediv_def py_int_def n_def [symmetric] Let_def m)
  qed
qed

lemma unit_roundoff_small: "(1280::real) * (1 + 2 powi (- 53)) * (1 + 2 powi (- 53)) < 1281"
  by (simp add: power_int_minus field_simps)

lemma scale_factor_bounds:
  fixes c d :: int
  assumes "0 < d" "d < 2 ^ 53" "0 < c" "c \<le> 1280"
  defines "s \<equiv> round_to_double (of_int c / of_int d)"
  shows "0 < s" and "s \<le> 1280" and "of_int d * s \<le> of_int c * (1 + 2 powi (- 53))"
proof -
  define q :: real where "q = of_int c / of_int d"
  have d1: "1 \<le> (of_int d :: real)" using assms(1) by simp
  have d_hi: "(of_int d :: real) < 2 ^ 53"
  proof -
    have "(of_int d :: real) < of_int (2 ^ 53)" using assms(2) by (simp only: of_int_less_iff)
    then show ?thesis by simp
  qed
  have c1: "1 \<le> (of_int c :: real)" using assms(3) by simp
  have c_hi: "(of_int c :: real) \<le> 1280"
  proof -
    have "(of_int c :: real) \<le> of_int 1280" using assms(4) by (simp only: of_int_le_iff)
    then show ?thesis by simp
  qed
  have q_pos: "0 < q" using d1 c1 by (simp add: q_def)
  have q_le_c: "q \<le> of_int c" using d1 c1 by (simp add: q_def field_simps mult_le_cancel_left1)
  have q_hi: "q \<le> 1280" using q_le_c c_hi by simp
  have q_lo: "1 / 2 ^ 53 \<le> q"
  proof -
    have "1 / 2 ^ 53 \<le> 1 / (of_int d :: real)"
      using d1 d_hi by (intro divide_left_mono) (auto simp: zero_less_mult_iff)
    also have "\<dots> \<le> q" using c1 d1 by (simp add: q_def divide_right_mono)
    finally show ?thesis .
  qed
  have norm1: "2 powi (- 1022) \<le> \<bar>q\<bar>"
  proof -
    have "(2::real) powi (- 1022) \<le> 2 powi (- 53)"
      by (intro power_int_increasing) auto
    also have "\<dots> = 1 / 2 ^ 53" by (simp add: power_int_minus field_simps)
    finally show ?thesis using q_lo q_pos by simp
  qed
  have norm2: "\<bar>q\<bar> < 2 powi 1024"
  proof -
    have "q < 2 powi 11" using q_hi by simp
    also have "(2::real) powi 11 \<le> 2 powi 1024" by (intro power_int_increasing) auto
    finally show ?thesis using q_pos by simp
  qed
  have "\<bar>s - q\<bar> \<le> \<bar>q\<bar> * 2 powi (- 53)"
    unfolding s_def q_def [symmetric] using norm1 norm2 by (rule round_to_double_error)
  then have err: "\<bar>s - q\<bar> \<le> q * 2 powi (- 53)" using q_pos by simp
  have u_lt: "(2::real) powi (- 53) < 1" by (simp add: power_int_minus field_simps)
  have "q * 2 powi (- 53) < q * 1" using q_pos u_lt by (intro mult_strict_left_mono) auto
  with err show "0 < s" by linarith
  have "q < 2 ^ 53" using q_hi by simp
  with round_to_double_sandwich [of q] q_pos have s_ceil: "s \<le> of_int \<lceil>q\<rceil>"
    by (simp add: s_def q_def)
  have "\<lceil>q\<rceil> \<le> 1280" using q_hi by (simp add: ceiling_le_iff)
  then have "(of_int \<lceil>q\<rceil> :: real) \<le> of_int 1280" by (simp only: of_int_le_iff)
  also have "(of_int 1280 :: real) = 1280" by simp
  finally show "s \<le> 1280" using s_ceil by linarith
  have "q * (1 + 2 powi (- 53)) = q + q * 2 powi (- 53)"
    by (simp only: distrib_left mult_1_right)
  with err have "s \<le> q * (1 + 2 powi (- 53))" by linarith
  then have "of_int d * s \<le> of_int d * (q * (1 + 2 powi (- 53)))"
    using d1 by (intro mult_left_mono) auto
  also have "of_int d * (q * (1 + 2 powi (- 53))) = of_int c * (1 + 2 powi (- 53))"
    using d1 by (simp add: q_def)
  finally show "of_int d * s \<le> of_int c * (1 + 2 powi (- 53))" .
qed

lemma scaled_dimension:
  fixes c :: int and x :: real
  assumes "0 < x" "x \<le> of_int c * (1 + 2 powi (- 53))" "0 < c" "c \<le> 1280"
  defines "f \<equiv> round_to_double x"
  shows "0 \<le> f" and "f \<le> 1281" and "\<lfloor>f\<rfloor> \<le> c"
    and "\<lfloor>x\<rfloor> \<le> \<lfloor>f\<rfloor>" and "\<lfloor>f\<rfloor> \<le> \<lceil>x\<rceil>"
proof -
  define u :: real where "u = 2 powi (- 53)"
  have u_pos: "0 < u" by (simp add: u_def)
  have small: "1280 * (1 + u) * (1 + u) < 1281"
    unfolding u_def by (rule unit_roundoff_small)
  have c_hi: "(of_int c :: real) \<le> 1280"
  proof -
    have "(of_int c :: real) \<le> of_int 1280" using assms(4) by (simp only: of_int_le_iff)
    then show ?thesis by simp
  qed
  have c_pos: "0 < (of_int c :: real)" using assms(3) by simp
  have xc: "x \<le> of_int c * (1 + u)" using assms(2) by (simp only: u_def)
  have "of_int c * (1 + u) \<le> 1280 * (1 + u)"
    using c_hi u_pos by (intro mult_right_mono) auto
  also have "1280 * (1 + u) \<le> 1280 * (1 + u) * (1 + u)"
    using u_pos by (simp add: mult_le_cancel_left1)
  finally have x_lt: "x < 1281" using xc small by linarith
  then have x53: "x < 2 ^ 53" by simp
  from round_to_double_sandwich [of x] assms(1) x53
  have lo: "of_int \<lfloor>x\<rfloor> \<le> f" and hi: "f \<le> of_int \<lceil>x\<rceil>"
    by (simp_all add: f_def)
  have "0 \<le> \<lfloor>x\<rfloor>" using assms(1) by simp
  then have "(0::real) \<le> of_int \<lfloor>x\<rfloor>" by simp
  with lo show "0 \<le> f" by linarith
  show fx: "\<lfloor>x\<rfloor> \<le> \<lfloor>f\<rfloor>" using lo by (simp only: le_floor_iff)
  have "of_int \<lfloor>f\<rfloor> \<le> f" by simp
  with hi have "(of_int \<lfloor>f\<rfloor> :: real) \<le> of_int \<lceil>x\<rceil>" by linarith
  then show fc: "\<lfloor>f\<rfloor> \<le> \<lceil>x\<rceil>" by (simp only: of_int_le_iff)
  have "\<lceil>x\<rceil> \<le> 1281" using x_lt by (simp add: ceiling_le_iff)
  then have "(of_int \<lceil>x\<rceil> :: real) \<le> of_int 1281" by (simp only: of_int_le_iff)
  also have "(of_int 1281 :: real) = 1281" by simp
  finally show "f \<le> 1281" using hi by linarith
  show "\<lfloor>f\<rfloor> \<le> c"
  proof (cases "x \<le> of_int c")
    case True
    then have "\<lceil>x\<rceil> \<le> c" by (simp only: ceiling_le_iff)
    with fc show ?thesis by simp
  next
    case False
    then have x1: "1 \<le> x" using assms(3) by (smt (verit) of_int_1_le_iff)
    have norm1: "2 powi (- 1022) \<le> \<bar>x\<bar>"
    proof -
      have "(2::real) powi (- 1022) \<le> 2 powi 0"
        by (intro power_int_increasing) auto
      with x1 show ?thesis by simp
    qed
    have norm2: "\<bar>x\<bar> < 2 powi 1024"
    proof -
      have "x < 2 powi 11" using x_lt by simp
      also have "(2::real) powi 11 \<le> 2 powi 1024" by (intro power_int_increasing) auto
      finally show ?thesis using assms(1) by simp
    qed
    have "\<bar>f - x\<bar> \<le> \<bar>x\<bar> * 2 powi (- 53)"
      unfolding f_def using norm1 norm2 by (rule round_to_double_error)
    then have "\<bar>f - x\<bar> \<le> x * u" using assms(1) by (simp add: u_def)
    moreover have "x * (1 + u) = x + x * u" by (simp only: distrib_left mult_1_right)
    ultimately have "f \<le> x * (1 + u)" by linarith
    also have "x * (1 + u) \<le> of_int c * (1 + u) * (1 + u)"
      using xc u_pos by (intro mult_right_mono) auto
    also have "of_int c * (1 + u) * (1 + u) = of_int c + of_int c * ((1 + u) * (1 + u) - 1)"
      by (simp add: algebra_simps)
    also have "of_int c * ((1 + u) * (1 + u) - 1) \<le> 1280 * ((1 + u) * (1 + u) - 1)"
    proof (intro mult_right_mono c_hi)
      have "1 * 1 \<le> (1 + u) * (1 + u)" using u_pos by (intro mult_mono) auto
      then show "0 \<le> (1 + u) * (1 + u) - 1" by simp
    qed
    also have "1280 * ((1 + u) * (1 + u) - 1) < 1" using small by (simp add: algebra_simps)
    finally have "f < of_int c + 1" by simp
    then have "f < of_int (c + 1)" by simp
    then have "\<lfloor>f\<rfloor> < c + 1" by (simp only: floor_less_iff)
    then show ?thesis by simp
  qed
qed

lemma double_max_ge_1281: "1281 \<le> double_max"
  by (simp add: double_max_def)

lemma py_truediv_scale:
  fixes c d :: int
  assumes "0 < d" "d < 2 ^ 53" "0 < c" "c \<le> 1280"
  shows "py_truediv c d = Inr (round_to_double (of_int c / of_int d))"
proof -
  from scale_factor_bounds [OF assms]
  have "0 < round_to_double (of_int c / of_int d)" "round_to_double (of_int c / of_int d) \<le> 1280"
    by simp_all
  with double_max_ge_1281 assms(1) show ?thesis
    by (simp add: py_truediv_def Let_def)
qed

lemma py_int_scaled:
  fixes c n :: int and s :: real
  assumes "0 < n" "n < 2 ^ 53" "0 < s" "of_int n * s \<le> of_int c * (1 + 2 powi (- 53))"
    "0 < c" "c \<le> 1280"
  shows "and_then (py_int_mul_float n s) py_int = Inr \<lfloor>round_to_double (of_int n * s)\<rfloor>"
proof -
  have n: "round_to_double (of_int n) = of_int n"
    using assms(1,2) by (intro round_to_double_of_int) simp
  have "(of_int n :: real) < of_int (2 ^ 53)" using assms(2) by (simp only: of_int_less_iff)
  then have n53: "(of_int n :: real) < 2 ^ 53" by simp
  have n_pos: "0 < (of_int n :: real)" using assms(1) by simp
  have f: "py_float_of_int n = Inr (of_int n)"
    using n n53 n_pos double_max_ge by (simp add: py_float_of_int_def Let_def)
  have x: "0 < of_int n * s" using n_pos assms(3) by simp
  from scaled_dimension [OF x assms(4,5,6)]
  have "0 \<le> round_to_double (of_int n * s)" "round_to_double (of_int n * s) \<le> 1281"
    by simp_all
  with double_max_ge_1281 show ?thesis
    by (simp add: py_int_mul_float_def f Let_def py_int_def)
qed

lemma scaled_size_run:
  fixes width height :: int
  assumes "0 < width" "width < 2 ^ 31" "0 < height" "height < 2 ^ 31"
  defines "s \<equiv> min (round_to_double (1280 / of_int width)) (round_to_double (720 / of_int height))"
  shows "scaled_size width height =
           Inr (\<lfloor>round_to_double (of_int width * s)\<rfloor>, \<lfloor>round_to_double (of_int height * s)\<rfloor>)"
    and "0 < s"
    and "of_int width * s \<le> 1280 * (1 + 2 powi (- 53))"
    and "of_int height * s \<le> 720 * (1 + 2 powi (- 53))"
proof -
  have w53: "width < 2 ^ 53" and h53: "height < 2 ^ 53" using assms(2,4) by simp_all
  have a: "0 < round_to_double (1280 / of_int width)"
    "of_int width * round_to_double (1280 / of_int width) \<le> 1280 * (1 + 2 powi (- 53))"
    using scale_factor_bounds(1,3) [OF assms(1) w53, of 1280] by simp_all
  have b: "0 < round_to_double (720 / of_int height)"
    "of_int height * round_to_double (720 / of_int height) \<le> 720 * (1 + 2 powi (- 53))"
    using scale_factor_bounds(1,3) [OF assms(3) h53, of 720] by simp_all
  show s_pos: "0 < s" using a(1) b(1) by (simp add: s_def)
  have w_pos: "0 < (of_int width :: real)" and h_pos: "0 < (of_int height :: real)"
    using assms(1,3) by simp_all
  have "of_int width * s \<le> of_int width * round_to_double (1280 / of_int width)"
    using w_pos by (intro mult_left_mono) (auto simp: s_def)
  with a(2) show ws: "of_int width * s \<le> 1280 * (1 + 2 powi (- 53))" by linarith
  have "of_int height * s \<le> of_int height * round_to_double (720 / of_int height)"
    using h_pos by (intro mult_left_mono) (auto simp: s_def)
  with b(2) show hs: "of_int height * s \<le> 720 * (1 + 2 powi (- 53))" by linarith
  have sx: "py_truediv 1280 width = Inr (round_to_double (1280 / of_int width))"
    using py_truediv_scale [OF assms(1) w53, of 1280] by simp
  have sy: "py_truediv 720 height = Inr (round_to_double (720 / of_int height))"
    using py_truediv_scale [OF assms(3) h53, of 720] by simp
  have nw: "and_then (py_int_mul_float width s) py_int = Inr \<lfloor>round_to_double (of_int width * s)\<rfloor>"
    using py_int_scaled [OF assms(1) w53 s_pos, of 1280] ws by simp
  have nh: "and_then (py_int_mul_float height s) py_int = Inr \<lfloor>round_to_double (of_int height * s)\<rfloor>"
    using py_int_scaled [OF assms(3) h53 s_pos, of 720] hs by simp
  show "scaled_size width height =
           Inr (\<lfloor>round_to_double (of_int width * s)\<rfloor>, \<lfloor>round_to_double (of_int height * s)\<rfloor>)"
    using nw nh
    by (auto simp add: scaled_size_def sx sy Let_def s_def [symmetric] and_then_def
        split: sum.splits)
qed

lemma py_truediv_eval:
  "b \<noteq> 0 \<Longrightarrow> round_to_double (of_int a / of_int b) = r \<Longrightarrow> \<bar>r\<bar> \<le> 1281 \<Longrightarrow>
   py_truediv a b = Inr r"
  using double_max_ge_1281 by (simp add: py_truediv_def Let_def)

lemma py_int_mul_float_eval:
  assumes "\<bar>n\<bar> < 2 ^ 53" "round_to_double (of_int n * x) = r" "\<bar>r\<bar> \<le> 1281"
  shows "py_int_mul_float n x = Inr (Some r)"
proof -
  have "(of_int \<bar>n\<bar> :: real) < of_int (2 ^ 53)" using assms(1) by (simp only: of_int_less_iff)
  then have "\<bar>of_int n :: real\<bar> < 2 ^ 53" by simp
  with double_max_ge have "\<not> double_max < \<bar>of_int n :: real\<bar>" by linarith
  then have "py_float_of_int n = Inr (of_int n)"
    using round_to_double_of_int [OF assms(1)] by (simp add: py_float_of_int_def Let_def)
  with assms(2,3) double_max_ge_1281 show ?thesis
    by (simp add: py_int_mul_float_def Let_def)
qed

lemma py_int_nonneg: "0 \<le> x \<Longrightarrow> py_int (Some x) = Inr \<lfloor>x\<rfloor>"
  by (simp add: py_int_def)

section \<open>Worked sizes\<close>

lemma double_1280_by_1600: "round_to_double (of_int 1280 / of_int 1600) = 3602879701896397 / 4503599627370496"
proof -
  have "round_to_double (of_int 1280 / of_int 1600) = of_int 7205759403792794 * 2 powi (- 1 - 52)"
    by (rule round_to_double_eqI) (simp_all add: power_int_minus)
  then show ?thesis by (simp add: power_int_minus)
qed

lemma double_720_by_901: "round_to_double (of_int 720 / of_int 901) = 7197761890581037 / 9007199254740992"
proof -
  have "round_to_double (of_int 720 / of_int 901) = of_int 7197761890581037 * 2 powi (- 1 - 52)"
    by (rule round_to_double_eqI) (simp_all add: power_int_minus)
  then show ?thesis by (simp add: power_int_minus)
qed

lemma double_1600_scaled: "round_to_double (of_int 1600 * (7197761890581037 / 9007199254740992)) = 5623251477016435 / 4398046511104"
proof -
  have "round_to_double (of_int 1600 * (7197761890581037 / 9007199254740992)) = of_int 5623251477016435 * 2 powi (10 - 52)"
    by (rule round_to_double_eqI) (simp_all add: power_int_minus)
  then show ?thesis by (simp add: power_int_minus)
qed

lemma double_901_scaled: "round_to_double (of_int 901 * (7197761890581037 / 9007199254740992)) = 720"
proof -
  have "round_to_double (of_int 901 * (7197761890581037 / 9007199254740992)) = of_int 6333186975989760 * 2 powi (9 - 52)"
    by (rule round_to_double_eqI) (simp_all add: power_int_minus)
  then show ?thesis by (simp add: power_int_minus)
qed
lemma double_1280_by_10000: "round_to_double (of_int 1280 / of_int 10000) = 1152921504606847 / 9007199254740992"
proof -
  have "round_to_double (of_int 1280 / of_int 10000) = of_int 4611686018427388 * 2 powi (- 3 - 52)"
    by (rule round_to_double_eqI) (simp_all add: power_int_minus)
  then show ?thesis by (simp add: power_int_minus)
qed

lemma double_720_by_1: "round_to_double (of_int 720 / of_int 1) = 720"
proof -
  have "round_to_double (of_int 720 / of_int 1) = of_int 6333186975989760 * 2 powi (9 - 52)"
    by (rule round_to_double_eqI) (simp_all add: power_int_minus)
  then show ?thesis by (simp add: power_int_minus)
qed

lemma double_10000_scaled: "round_to_double (of_int 10000 * (1152921504606847 / 9007199254740992)) = 1280"
proof -
  have "round_to_double (of_int 10000 * (1152921504606847 / 9007199254740992)) = of_int 5629499534213120 * 2 powi (10 - 52)"
    by (rule round_to_double_eqI) (simp_all add: power_int_minus)
  then show ?thesis by (simp add: power_int_minus)
qed

lemma double_1_scaled: "round_to_double (of_int 1 * (1152921504606847 / 9007199254740992)) = 1152921504606847 / 9007199254740992"
proof -
  have "round_to_double (of_int 1 * (1152921504606847 / 9007199254740992)) = of_int 4611686018427388 * 2 powi (- 3 - 52)"
    by (rule round_to_double_eqI) (simp_all add: power_int_minus)
  then show ?thesis by (simp add: power_int_minus)
qed
lemma double_1280_by_2560: "round_to_double (of_int 1280 / of_int 2560) = 1 / 2"
proof -
  have "round_to_double (of_int 1280 / of_int 2560) = of_int 4503599627370496 * 2 powi (- 1 - 52)"
    by (rule round_to_double_eqI) (simp_all add: power_int_minus)
  then show ?thesis by (simp add: power_int_minus)
qed

lemma double_720_by_1440: "round_to_double (of_int 720 / of_int 1440) = 1 / 2"
proof -
  have "round_to_double (of_int 720 / of_int 1440) = of_int 4503599627370496 * 2 powi (- 1 - 52)"
    by (rule round_to_double_eqI) (simp_all add: power_int_minus)
  then show ?thesis by (simp add: power_int_minus)
qed

lemma double_2560_scaled: "round_to_double (of_int 2560 * (1 / 2)) = 1280"
proof -
  have "round_to_double (of_int 2560 * (1 / 2)) = of_int 5629499534213120 * 2 powi (10 - 52)"
    by (rule round_to_double_eqI) (simp_all add: power_int_minus)
  then show ?thesis by (simp add: power_int_minus)
qed

lemma double_1440_scaled: "round_to_double (of_int 1440 * (1 / 2)) = 720"
proof -
  have "round_to_double (of_int 1440 * (1 / 2)) = of_int 6333186975989760 * 2 powi (9 - 52)"
    by (rule round_to_double_eqI) (simp_all add: power_int_minus)
  then show ?thesis by (simp add: power_int_minus)
qed

lemma scaled_size_1600_901: "scaled_size 1600 901 = Inr (1278, 720)"
proof -
  have sx: "py_truediv 1280 1600 = Inr (3602879701896397 / 4503599627370496)"
    by (rule py_truediv_eval [OF _ double_1280_by_1600]) simp_all
  have sy: "py_truediv 720 901 = Inr (7197761890581037 / 9007199254740992)"
    by (rule py_truediv_eval [OF _ double_720_by_901]) simp_all
  have fw: "py_int_mul_float 1600 (7197761890581037 / 9007199254740992) =
      Inr (Some (5623251477016435 / 4398046511104))"
    by (rule py_int_mul_float_eval [OF _ double_1600_scaled]) simp_all
  have fh: "py_int_mul_float 901 (7197761890581037 / 9007199254740992) = Inr (Some 720)"
    by (rule py_int_mul_float_eval [OF _ double_901_scaled]) simp_all
  show ?thesis
    by (simp add: scaled_size_def sx sy fw fh py_int_nonneg)
qed

lemma scaled_size_10000_1: "scaled_size 10000 1 = Inr (1280, 0)"
proof -
  have sx: "py_truediv 1280 10000 = Inr (1152921504606847 / 9007199254740992)"
    by (rule py_truediv_eval [OF _ double_1280_by_10000]) simp_all
  have sy: "py_truediv 720 1 = Inr 720"
    by (rule py_truediv_eval [OF _ double_720_by_1]) simp_all
  have fw: "py_int_mul_float 10000 (1152921504606847 / 9007199254740992) = Inr (Some 1280)"
    by (rule py_int_mul_float_eval [OF _ double_10000_scaled]) simp_all
  have fh: "py_int_mul_float 1 (1152921504606847 / 9007199254740992) =
      Inr (Some (1152921504606847 / 9007199254740992))"
    by (rule py_int_mul_float_eval [OF _ double_1_scaled]) simp_all
  show ?thesis
    by (simp add: scaled_size_def sx sy fw fh py_int_nonneg)
qed

lemma scaled_size_2560_1440: "scaled_size 2560 1440 = Inr (1280, 720)"
proof -
  have sx: "py_truediv 1280 2560 = Inr (1 / 2)"
    by (rule py_truediv_eval [OF _ double_1280_by_2560]) simp_all
  have sy: "py_truediv 720 1440 = Inr (1 / 2)"
    by (rule py_truediv_eval [OF _ double_720_by_1440]) simp_all
  have fw: "py_int_mul_float 2560 (1 / 2) = Inr (Some 1280)"
    by (rule py_int_mul_float_eval [OF _ double_2560_scaled]) simp_all
  have fh: "py_int_mul_float 1440 (1 / 2) = Inr (Some 720)"
    by (rule py_int_mul_float_eval [OF _ double_1440_scaled]) simp_all
  show ?thesis
    by (simp add: scaled_size_def sx sy fw fh py_int_nonneg)
qed

lemma LaneDetector_init_run:
  "LaneDetector_init cv path h =
     (case imread cv path of
        None \<Rightarrow> (Inl (ValueError (''Could not load image: '' @ path)), h)
      | Some a \<Rightarrow>
          (case shape2 (take 2 (shape a)) of
             Inl e \<Rightarrow> (Inl e, h @ [a])
           | Inr (height, width) \<Rightarrow>
               if width > 1280 \<or> height > 720 then
                 (case scaled_size width height of
                    Inl e \<Rightarrow> (Inl e, h @ [a])
                  | Inr dsize \<Rightarrow>
                      (case resized cv dsize a of
                         Inl e \<Rightarrow> (Inl e, h @ [a])
                       | Inr a' \<Rightarrow>
                           (Inr \<lparr>original_image = Suc (length h), image_path = path\<rparr>,
                            h @ [a, a'])))
               else (Inr \<lparr>original_image = length h, image_path = path\<rparr>, h @ [a])))"
  by (simp add: LaneDetector_init_def cv2_imread_def cv2_resize_def bind_def alloc_def
      ret_def raise_def deref_def liftE_def new_from_def
      split: option.splits sum.splits prod.splits)

lemma rational_gap:
  fixes N D z :: int and E :: real
  assumes "0 < D" "D < 2 ^ 31" "E = of_int N / of_int D"
  shows "E = of_int z \<or> 2 powi (- 31) \<le> \<bar>E - of_int z\<bar>"
proof (cases "N = z * D")
  case True
  then have "(of_int N :: real) = of_int z * of_int D" by (metis of_int_mult)
  with assms(1,3) show ?thesis by simp
next
  case False
  then have "1 \<le> \<bar>N - z * D\<bar>" by simp
  then have "(of_int 1 :: real) \<le> of_int \<bar>N - z * D\<bar>" by (simp only: of_int_le_iff)
  then have one: "1 \<le> \<bar>of_int N - of_int z * (of_int D :: real)\<bar>" by simp
  have Dpos: "0 < (of_int D :: real)" using assms(1) by simp
  have "(of_int D :: real) < of_int (2 ^ 31)" using assms(2) by (simp only: of_int_less_iff)
  then have Dhi: "(of_int D :: real) < 2 ^ 31" by simp
  have "E - of_int z = (of_int N - of_int z * of_int D) / of_int D"
    using Dpos by (simp add: assms(3) field_simps)
  then have "\<bar>E - of_int z\<bar> = \<bar>of_int N - of_int z * of_int D\<bar> / of_int D"
    using Dpos by (simp add: abs_divide)
  also have "\<dots> \<ge> 1 / of_int D" using one Dpos by (simp add: divide_right_mono)
  finally have "1 / of_int D \<le> \<bar>E - of_int z\<bar>" .
  moreover have "1 / 2 ^ 31 \<le> 1 / (of_int D :: real)"
    using Dpos Dhi by (intro divide_left_mono) (auto simp: zero_less_mult_iff)
  moreover have "(2::real) powi (- 31) = 1 / 2 ^ 31" by (simp add: power_int_minus field_simps)
  ultimately show ?thesis by linarith
qed

lemma scale_factor_error:
  fixes c d :: int
  assumes "0 < d" "d < 2 ^ 53" "0 < c" "c \<le> 1280"
  shows "\<bar>round_to_double (of_int c / of_int d) - of_int c / of_int d\<bar>
           \<le> of_int c / of_int d * 2 powi (- 53)"
proof -
  define q :: real where "q = of_int c / of_int d"
  have d1: "1 \<le> (of_int d :: real)" using assms(1) by simp
  have "(of_int d :: real) < of_int (2 ^ 53)" using assms(2) by (simp only: of_int_less_iff)
  then have d_hi: "(of_int d :: real) < 2 ^ 53" by simp
  have c1: "1 \<le> (of_int c :: real)" using assms(3) by simp
  have "(of_int c :: real) \<le> of_int 1280" using assms(4) by (simp only: of_int_le_iff)
  then have c_hi: "(of_int c :: real) \<le> 1280" by simp
  have q_pos: "0 < q" using d1 c1 by (simp add: q_def)
  have q_le_c: "q \<le> of_int c" using d1 c1 by (simp add: q_def field_simps mult_le_cancel_left1)
  have q_hi: "q \<le> 1280" using q_le_c c_hi by simp
  have q_lo: "1 / 2 ^ 53 \<le> q"
  proof -
    have "1 / 2 ^ 53 \<le> 1 / (of_int d :: real)"
      using d1 d_hi by (intro divide_left_mono) (auto simp: zero_less_mult_iff)
    also have "\<dots> \<le> q" using c1 d1 by (simp add: q_def divide_right_mono)
    finally show ?thesis .
  qed
  have norm1: "2 powi (- 1022) \<le> \<bar>q\<bar>"
  proof -
    have "(2::real) powi (- 1022) \<le> 2 powi (- 53)"
      by (intro power_int_increasing) auto
    also have "\<dots> = 1 / 2 ^ 53" by (simp add: power_int_minus field_simps)
    finally show ?thesis using q_lo q_pos by simp
  qed
  have norm2: "\<bar>q\<bar> < 2 powi 1024"
  proof -
    have "q < 2 powi 11" using q_hi by simp
    also have "(2::real) powi 11 \<le> 2 powi 1024" by (intro power_int_increasing) auto
    finally show ?thesis using q_pos by simp
  qed
  have "\<bar>round_to_double q - q\<bar> \<le> \<bar>q\<bar> * 2 powi (- 53)"
    using norm1 norm2 by (rule round_to_double_error)
  then show ?thesis using q_pos by (simp add: q_def)
qed

lemma min_rounded_error:
  fixes a b fa fb u :: real
  assumes "0 < a" "0 < b" "0 \<le> u" "u \<le> 1" "\<bar>fa - a\<bar> \<le> a * u" "\<bar>fb - b\<bar> \<le> b * u"
  shows "\<bar>min fa fb - min a b\<bar> \<le> min a b * u"
proof (cases "a \<le> b")
  case True
  then have m: "min a b = a" by simp
  have "0 \<le> (b - a) * (1 - u)" using True assms(4) by (intro mult_nonneg_nonneg) auto
  then have "a - a * u \<le> b - b * u" by (simp add: algebra_simps)
  then have "a - a * u \<le> fb" using assms(6) by linarith
  with assms(5) show ?thesis unfolding m by (simp add: min_def) linarith
next
  case False
  then have m: "min a b = b" by simp
  have "0 \<le> (a - b) * (1 - u)" using False assms(4) by (intro mult_nonneg_nonneg) auto
  then have "b - b * u \<le> a - a * u" by (simp add: algebra_simps)
  then have "b - b * u \<le> fa" using assms(5) by linarith
  with assms(6) show ?thesis unfolding m by (simp add: min_def) linarith
qed

lemma roundoff_below_gap: "3 * (1280 * (2 powi (- 53) :: real)) < 2 powi (- 31)"
  by (simp add: power_int_minus field_simps)

lemma truncated_product_exact:
  fixes n :: int and s \<sigma> E :: real
  assumes "0 < n"
    and "0 < \<sigma>" and "\<bar>s - \<sigma>\<bar> \<le> \<sigma> * 2 powi (- 53)"
    and "E = of_int n * \<sigma>" and "E \<le> 1280"
    and gap: "\<And>z::int. E = of_int z \<or> 2 powi (- 31) \<le> \<bar>E - of_int z\<bar>"
  shows "\<lceil>E\<rceil> - 1 \<le> \<lfloor>round_to_double (of_int n * s)\<rfloor>"
    and "\<lfloor>round_to_double (of_int n * s)\<rfloor> \<le> \<lfloor>E\<rfloor>"
proof -
  define u :: real where "u = 2 powi (- 53)"
  define g :: real where "g = 2 powi (- 31)"
  define x where "x = of_int n * s"
  define F where "F = round_to_double x"
  have u_pos: "0 < u" by (simp add: u_def)
  have u_le: "u \<le> 1 / 2" by (simp add: u_def power_int_minus field_simps)
  have ug: "3 * (1280 * u) < g" unfolding u_def g_def by (rule roundoff_below_gap)
  have n_pos: "0 < (of_int n :: real)" using assms(1) by simp
  have E_pos: "0 < E" using n_pos assms(2,4) by simp
  have "E \<noteq> of_int (0::int)" using E_pos by simp
  with gap [of 0] have "g \<le> \<bar>E - of_int (0::int)\<bar>" by (simp add: g_def)
  then have E_lo: "g \<le> E" using E_pos by simp
  have "x - E = of_int n * (s - \<sigma>)" by (simp add: x_def assms(4) algebra_simps)
  then have "\<bar>x - E\<bar> = of_int n * \<bar>s - \<sigma>\<bar>" using n_pos by (simp add: abs_mult)
  also have "\<dots> \<le> of_int n * (\<sigma> * u)"
    using n_pos assms(3) unfolding u_def by (intro mult_left_mono) auto
  also have "\<dots> = E * u" by (simp add: assms(4))
  finally have xE: "\<bar>x - E\<bar> \<le> E * u" .
  have Eu: "E * u \<le> E * (1 / 2)" using E_pos u_le by (intro mult_left_mono) auto
  have x_lo: "E / 2 \<le> x" and x_hi: "x \<le> 2 * E" using xE Eu by linarith+
  have x_pos: "0 < x" using x_lo E_pos by linarith
  have norm1: "2 powi (- 1022) \<le> \<bar>x\<bar>"
  proof -
    have "(2::real) powi (- 1022) \<le> 2 powi (- 32)"
      by (intro power_int_increasing) auto
    also have "\<dots> = g / 2" by (simp add: g_def power_int_minus field_simps)
    also have "\<dots> \<le> x" using E_lo x_lo by linarith
    finally show ?thesis using x_pos by simp
  qed
  have norm2: "\<bar>x\<bar> < 2 powi 1024"
  proof -
    have "x < 2 powi 12" using x_hi assms(5) by simp
    also have "(2::real) powi 12 \<le> 2 powi 1024" by (intro power_int_increasing) auto
    finally show ?thesis using x_pos by simp
  qed
  have "\<bar>F - x\<bar> \<le> \<bar>x\<bar> * 2 powi (- 53)"
    unfolding F_def using norm1 norm2 by (rule round_to_double_error)
  then have "\<bar>F - x\<bar> \<le> x * u" using x_pos by (simp add: u_def)
  also have "x * u \<le> (2 * E) * u" using x_hi u_pos by (intro mult_right_mono) auto
  finally have Fx: "\<bar>F - x\<bar> \<le> 2 * (E * u)" by simp
  have "E * u \<le> 1280 * u" using assms(5) u_pos by (intro mult_right_mono) auto
  with Fx xE ug have FE: "\<bar>F - E\<bar> < g" by linarith
  have up: "F < of_int (\<lfloor>E\<rfloor> + 1)"
  proof -
    have lt: "E < of_int (\<lfloor>E\<rfloor> + 1)" by linarith
    then have "E \<noteq> of_int (\<lfloor>E\<rfloor> + 1)" by (metis less_irrefl)
    with gap [of "\<lfloor>E\<rfloor> + 1"] have "g \<le> \<bar>E - of_int (\<lfloor>E\<rfloor> + 1)\<bar>"
      by (simp add: g_def)
    with lt FE show ?thesis by linarith
  qed
  have lo: "of_int (\<lceil>E\<rceil> - 1) \<le> F"
  proof -
    have lt: "of_int (\<lceil>E\<rceil> - 1) < E" by linarith
    then have "E \<noteq> of_int (\<lceil>E\<rceil> - 1)" by (metis less_irrefl)
    with gap [of "\<lceil>E\<rceil> - 1"] have "g \<le> \<bar>E - of_int (\<lceil>E\<rceil> - 1)\<bar>"
      by (simp add: g_def)
    with lt FE show ?thesis by linarith
  qed
  from up have "\<lfloor>F\<rfloor> < \<lfloor>E\<rfloor> + 1" by (simp only: floor_less_iff)
  then show "\<lfloor>round_to_double (of_int n * s)\<rfloor> \<le> \<lfloor>E\<rfloor>"
    by (simp add: F_def x_def)
  from lo have "\<lceil>E\<rceil> - 1 \<le> \<lfloor>F\<rfloor>" by (simp only: le_floor_iff)
  then show "\<lceil>E\<rceil> - 1 \<le> \<lfloor>round_to_double (of_int n * s)\<rfloor>"
    by (simp add: F_def x_def)
qed

lemma scaled_size_exact:
  fixes width height :: int
  assumes "0 < width" "width < 2 ^ 31" "0 < height" "height < 2 ^ 31"
  defines "\<sigma> \<equiv> min (1280 / of_int width) (720 / of_int height) :: real"
  shows "\<exists>nw nh. scaled_size width height = Inr (nw, nh) \<and>
           \<lceil>of_int width * \<sigma>\<rceil> - 1 \<le> nw \<and> nw \<le> \<lfloor>of_int width * \<sigma>\<rfloor> \<and>
           \<lceil>of_int height * \<sigma>\<rceil> - 1 \<le> nh \<and> nh \<le> \<lfloor>of_int height * \<sigma>\<rfloor>"
proof -
  define s where
    "s = min (round_to_double (1280 / of_int width)) (round_to_double (720 / of_int height))"
  have w53: "width < 2 ^ 53" and h53: "height < 2 ^ 53" using assms(2,4) by simp_all
  have w_pos: "0 < (of_int width :: real)" and h_pos: "0 < (of_int height :: real)"
    using assms(1,3) by simp_all
  have a_pos: "0 < 1280 / (of_int width :: real)" and b_pos: "0 < 720 / (of_int height :: real)"
    using w_pos h_pos by simp_all
  have ea: "\<bar>round_to_double (1280 / of_int width) - 1280 / of_int width\<bar>
      \<le> 1280 / of_int width * 2 powi (- 53)"
    using scale_factor_error [OF assms(1) w53, of 1280] by simp
  have eb: "\<bar>round_to_double (720 / of_int height) - 720 / of_int height\<bar>
      \<le> 720 / of_int height * 2 powi (- 53)"
    using scale_factor_error [OF assms(3) h53, of 720] by simp
  have u0: "0 \<le> (2 powi (- 53) :: real)" by simp
  have u1: "(2 powi (- 53) :: real) \<le> 1" by (simp add: power_int_minus field_simps)
  have err: "\<bar>s - \<sigma>\<bar> \<le> \<sigma> * 2 powi (- 53)"
    unfolding s_def \<sigma>_def by (rule min_rounded_error [OF a_pos b_pos u0 u1 ea eb])
  have sig_pos: "0 < \<sigma>" using a_pos b_pos by (simp add: \<sigma>_def)
  have run: "scaled_size width height =
      Inr (\<lfloor>round_to_double (of_int width * s)\<rfloor>, \<lfloor>round_to_double (of_int height * s)\<rfloor>)"
    using scaled_size_run(1) [OF assms(1-4)] by (simp add: s_def)
  have Ew_le: "of_int width * \<sigma> \<le> 1280"
  proof -
    have "of_int width * \<sigma> \<le> of_int width * (1280 / of_int width)"
      using w_pos by (intro mult_left_mono) (auto simp: \<sigma>_def)
    then show ?thesis using w_pos by simp
  qed
  have Eh_le: "of_int height * \<sigma> \<le> 1280"
  proof -
    have "of_int height * \<sigma> \<le> of_int height * (720 / of_int height)"
      using h_pos by (intro mult_left_mono) (auto simp: \<sigma>_def)
    then show ?thesis using h_pos by simp
  qed
  have one: "(0::int) < 1" "(1::int) < 2 ^ 31" by simp_all
  have gap_w: "of_int width * \<sigma> = of_int z \<or> 2 powi (- 31) \<le> \<bar>of_int width * \<sigma> - of_int z\<bar>"
    for z :: int
  proof (cases "1280 / (of_int width :: real) \<le> 720 / of_int height")
    case True
    then have "of_int width * \<sigma> = of_int 1280 / of_int 1"
      using w_pos by (simp add: \<sigma>_def)
    then show ?thesis by (rule rational_gap [OF one])
  next
    case False
    then have "of_int width * \<sigma> = of_int (720 * width) / of_int height"
      using h_pos by (simp add: \<sigma>_def min_def)
    then show ?thesis by (rule rational_gap [OF assms(3,4)])
  qed
  have gap_h: "of_int height * \<sigma> = of_int z \<or> 2 powi (- 31) \<le> \<bar>of_int height * \<sigma> - of_int z\<bar>"
    for z :: int
  proof (cases "1280 / (of_int width :: real) \<le> 720 / of_int height")
    case True
    then have "of_int height * \<sigma> = of_int (1280 * height) / of_int width"
      using w_pos by (simp add: \<sigma>_def min_def)
    then show ?thesis by (rule rational_gap [OF assms(1,2)])
  next
    case False
    then have "of_int height * \<sigma> = of_int 720 / of_int 1"
      using h_pos by (simp add: \<sigma>_def min_def)
    then show ?thesis by (rule rational_gap [OF one])
  qed
  note tw = truncated_product_exact [OF assms(1) sig_pos err refl Ew_le gap_w]
  note th = truncated_product_exact [OF assms(3) sig_pos err refl Eh_le gap_h]
  from run tw th show ?thesis by blast
qed

section \<open>Running statements on the store\<close>

lemma bind_ret [simp]: "bind (ret x) f = f x"
  by (rule ext) (simp add: bind_def ret_def)

lemma bind_raise [simp]: "bind (raise e) f = raise e"
  by (rule ext) (simp add: bind_def raise_def)

lemma run_ret [simp]: "ret x h = (Inr x, h)"
  by (simp add: ret_def)

lemma run_raise [simp]: "raise e h = (Inl e, h)"
  by (simp add: raise_def)

lemma run_liftE [simp]: "liftE v h = (v, h)"
  by (simp add: liftE_def)

lemma bind_liftE [simp]:
  "bind (liftE v) k h = (case v of Inl e \<Rightarrow> (Inl e, h) | Inr x \<Rightarrow> k x h)"
  by (simp add: bind_def liftE_def split: sum.splits)

lemma bind_deref [simp]: "bind (deref p) k h = k (h ! p) h"
  by (simp add: bind_def deref_def)

lemma bind_new_from [simp]:
  "bind (new_from src f) k h =
     (case f (h ! src) of Inl e \<Rightarrow> (Inl e, h) | Inr a \<Rightarrow> k (length h) (h @ [a]))"
  by (simp add: new_from_def bind_def deref_def liftE_def alloc_def split: sum.splits)

lemma bind_in_place [simp]:
  "bind (in_place p f) k h =
     (case f (h ! p) of Inl e \<Rightarrow> (Inl e, h) | Inr a \<Rightarrow> k () (h[p := a]))"
  by (simp add: in_place_def bind_def deref_def liftE_def assign_def split: sum.splits)

lemma run_in_place:
  "in_place p f h =
     (case f (h ! p) of Inl e \<Rightarrow> (Inl e, h) | Inr a \<Rightarrow> (Inr (), h[p := a]))"
  by (simp add: in_place_def bind_def deref_def liftE_def assign_def split: sum.splits)

lemma draw_lines_length: "length (snd (draw_lines cv r rows h)) = length h"
proof (induction rows arbitrary: h)
  case Nil
  then show ?case by simp
next
  case (Cons s rows)
  obtain x1 y1 x2 y2 where s: "s = (x1, y1, x2, y2)" by (cases s) auto
  show ?case
    by (simp add: s cv2_line_def Cons.IH split: sum.splits)
qed

lemma draw_lines_other: "p \<noteq> r \<Longrightarrow> snd (draw_lines cv r rows h) ! p = h ! p"
proof (induction rows arbitrary: h)
  case Nil
  then show ?case by simp
next
  case (Cons s rows)
  obtain x1 y1 x2 y2 where s: "s = (x1, y1, x2, y2)" by (cases s) auto
  show ?case
    using Cons.prems by (simp add: s cv2_line_def Cons.IH split: sum.splits)
qed

lemma draw_lines_frame:
  "r < length h \<Longrightarrow> r < length h2 \<Longrightarrow> h ! r = h2 ! r \<Longrightarrow>
   fst (draw_lines cv r rows h) = fst (draw_lines cv r rows h2) \<and>
   snd (draw_lines cv r rows h) ! r = snd (draw_lines cv r rows h2) ! r"
proof (induction rows arbitrary: h h2)
  case Nil
  then show ?case by simp
next
  case (Cons s rows)
  obtain x1 y1 x2 y2 where s: "s = (x1, y1, x2, y2)" by (cases s) auto
  show ?case
    using Cons.prems by (simp add: s cv2_line_def Cons.IH split: sum.splits)
qed


lemma draw_lines_run:
  "r < length h \<Longrightarrow>
   (case drawn_rows cv rows (h ! r) of
      Inr a' \<Rightarrow> draw_lines cv r rows h = (Inr (), h[r := a'])
    | Inl e \<Rightarrow> fst (draw_lines cv r rows h) = Inl e)"
proof (induction rows arbitrary: h)
  case Nil
  then show ?case by simp
next
  case (Cons s rows)
  obtain x1 y1 x2 y2 where s: "s = (x1, y1, x2, y2)" by (cases s) auto
  show ?case
  proof (cases "with_line cv (x1, y1) (x2, y2) (0, 255, 0) 2 (h ! r)")
    case (Inl e)
    then show ?thesis by (simp add: s cv2_line_def)
  next
    case (Inr a1)
    have "r < length (h[r := a1])" using Cons.prems by simp
    from Cons.IH [OF this] Cons.prems Inr show ?thesis
      by (simp add: s cv2_line_def split: sum.splits)
  qed
qed


lemma bind_assoc [simp]: "bind (bind m f) k = bind m (\<lambda>x. bind (f x) k)"
  by (rule ext) (simp add: bind_def split: sum.splits prod.splits)

lemma bind_draw_lines:
  assumes "r < length h"
  shows "bind (case lines of None \<Rightarrow> ret () | Some rows \<Rightarrow> draw_lines cv r rows) k h =
     (case drawn_rows cv (case lines of None \<Rightarrow> [] | Some rows \<Rightarrow> rows) (h ! r) of
        Inr a' \<Rightarrow> k () (h[r := a'])
      | Inl e \<Rightarrow> (Inl e, snd ((case lines of None \<Rightarrow> ret () | Some rows \<Rightarrow> draw_lines cv r rows) h)))"
proof (cases lines)
  case None
  then show ?thesis by simp
next
  case (Some rows)
  show ?thesis
  proof (cases "drawn_rows cv rows (h ! r)")
    case (Inl e)
    with draw_lines_run [OF assms, of cv rows] have "fst (draw_lines cv r rows h) = Inl e"
      by simp
    then show ?thesis
      using Some Inl by (cases "draw_lines cv r rows h") (simp add: bind_def)
  next
    case (Inr a')
    with draw_lines_run [OF assms, of cv rows] have "draw_lines cv r rows h = (Inr (), h[r := a'])"
      by simp
    then show ?thesis
      using Some Inr by (simp add: bind_def)
  qed
qed

section \<open>A run of the detector and its arrays\<close>

lemmas lane_defs = detect_lanes_def detect_value_def cv2_cvtColor_BGR2GRAY_def
  cv2_GaussianBlur_def cv2_Canny_def np_zeros_like_def cv2_fillPoly_def
  cv2_bitwise_and_def cv2_HoughLinesP_def ndarray_copy_def cv2_polylines_def
  zeros_like_def nth_append list_update_append bind_draw_lines

lemma detect_lanes_run:
  assumes a: "original_image self < length h"
  shows "case detect_value cv (h ! original_image self) cl ch ht hl hg rt rb of
           Inr t \<Rightarrow>
             detect_lanes cv self cl ch ht hl hg rt rb h =
               (Inr (length h + 5, length h + 2, tr_lines t),
                h @ [tr_gray t, tr_blurred t, tr_edges t, tr_roi_mask t, tr_edges_roi t,
                     tr_result_image t])
         | Inl e \<Rightarrow> fst (detect_lanes cv self cl ch ht hl hg rt rb h) = Inl e"
proof (cases "gray_of cv (h ! original_image self)")
  case (Inl e)
  then show ?thesis using a  by (simp add: lane_defs)
next
  case s0: (Inr gray)
  show ?thesis
  proof (cases "blurred_of cv (5, 5) 0 gray")
    case (Inl e)
    then show ?thesis using a s0 by (simp add: lane_defs)
  next
    case s1: (Inr blurred)
    show ?thesis
    proof (cases "canny_of cv cl ch blurred")
      case (Inl e)
      then show ?thesis using a s0 s1 by (simp add: lane_defs)
    next
      case s2: (Inr edges)
      show ?thesis
      proof (cases "shape2 (shape edges)")
        case (Inl e)
        then show ?thesis using a s0 s1 s2 by (simp add: lane_defs)
      next
        case s3: (Inr hw)
        obtain height width where hw: "hw = (height, width)" by (cases hw)
        show ?thesis
        proof (cases "percent_pixel height rt")
          case (Inl e)
          then show ?thesis using a s0 s1 s2 s3 hw by (simp add: lane_defs)
        next
          case s4: (Inr roi_top_pixel)
          show ?thesis
          proof (cases "percent_pixel height rb")
            case (Inl e)
            then show ?thesis using a s0 s1 s2 s3 hw s4 by (simp add: lane_defs)
          next
            case s5: (Inr roi_bottom_pixel)
            show ?thesis
            proof (cases "np_array_int32 (roi_corners height width roi_top_pixel)")
              case (Inl e)
              then show ?thesis using a s0 s1 s2 s3 hw s4 s5 by (simp add: lane_defs)
            next
              case s6: (Inr vertices)
              show ?thesis
              proof (cases "filled cv [vertices] 255 \<lparr>shape = shape edges, data = replicate (length (data edges)) 0\<rparr>")
                case (Inl e)
                then show ?thesis using a s0 s1 s2 s3 hw s4 s5 s6 by (simp add: lane_defs)
              next
                case s7: (Inr roi_mask)
                show ?thesis
                proof (cases "anded edges roi_mask")
                  case (Inl e)
                  then show ?thesis using a s0 s1 s2 s3 hw s4 s5 s6 s7 by (simp add: lane_defs)
                next
                  case s8: (Inr edges_roi)
                  show ?thesis
                  proof (cases "hough_lines cv 1 hough_theta ht hl hg edges_roi")
                    case (Inl e)
                    then show ?thesis using a s0 s1 s2 s3 hw s4 s5 s6 s7 s8 by (simp add: lane_defs)
                  next
                    case s9: (Inr lines)
                    show ?thesis
                    proof (cases "drawn_rows cv (case lines of None \<Rightarrow> [] | Some rows \<Rightarrow> rows) (h ! original_image self)")
                      case (Inl e)
                      then show ?thesis using a s0 s1 s2 s3 hw s4 s5 s6 s7 s8 s9 by (simp add: lane_defs)
                    next
                      case s10: (Inr drawn)
                      show ?thesis
                      proof (cases "with_polylines cv [vertices] True (255, 0, 0) 2 drawn")
                        case (Inl e)
                        then show ?thesis using a s0 s1 s2 s3 hw s4 s5 s6 s7 s8 s9 s10 by (simp add: lane_defs)
                      next
                        case s11: (Inr result_image)
                        show ?thesis using a s0 s1 s2 s3 hw s4 s5 s6 s7 s8 s9 s10 s11 by (simp add: lane_defs)
                      qed
                    qed
                  qed
                qed
              qed
            qed
          qed
        qed
      qed
    qed
  qed
qed

lemma snd_draw_case_other:
  "p \<noteq> r \<Longrightarrow>
   snd ((case lines of None \<Rightarrow> ret () | Some rows \<Rightarrow> draw_lines cv r rows) h) ! p = h ! p"
  by (cases lines) (simp_all add: draw_lines_other)

lemma snd_draw_case_length:
  "length (snd ((case lines of None \<Rightarrow> ret () | Some rows \<Rightarrow> draw_lines cv r rows) h)) = length h"
  by (cases lines) (simp_all add: draw_lines_length)

lemma detect_lanes_frame:
  assumes a: "original_image self < length h" and p: "p < length h"
  shows "p < length (snd (detect_lanes cv self cl ch ht hl hg rt rb h)) \<and>
         snd (detect_lanes cv self cl ch ht hl hg rt rb h) ! p = h ! p"
proof (cases "gray_of cv (h ! original_image self)")
  case (Inl e)
  then show ?thesis using a p  by (simp add: lane_defs snd_draw_case_other snd_draw_case_length nth_list_update)
next
  case s0: (Inr gray)
  show ?thesis
  proof (cases "blurred_of cv (5, 5) 0 gray")
    case (Inl e)
    then show ?thesis using a p s0 by (simp add: lane_defs snd_draw_case_other snd_draw_case_length nth_list_update)
  next
    case s1: (Inr blurred)
    show ?thesis
    proof (cases "canny_of cv cl ch blurred")
      case (Inl e)
      then show ?thesis using a p s0 s1 by (simp add: lane_defs snd_draw_case_other snd_draw_case_length nth_list_update)
    next
      case s2: (Inr edges)
      show ?thesis
      proof (cases "shape2 (shape edges)")
        case (Inl e)
        then show ?thesis using a p s0 s1 s2 by (simp add: lane_defs snd_draw_case_other snd_draw_case_length nth_list_update)
      next
        case s3: (Inr hw)
        obtain height width where hw: "hw = (height, width)" by (cases hw)
        show ?thesis
        proof (cases "percent_pixel height rt")
          case (Inl e)
          then show ?thesis using a p s0 s1 s2 s3 hw by (simp add: lane_defs snd_draw_case_other snd_draw_case_length nth_list_update)
        next
          case s4: (Inr roi_top_pixel)
          show ?thesis
          proof (cases "percent_pixel height rb")
            case (Inl e)
            then show ?thesis using a p s0 s1 s2 s3 hw s4 by (simp add: lane_defs snd_draw_case_other snd_draw_case_length nth_list_update)
          next
            case s5: (Inr roi_bottom_pixel)
            show ?thesis
            proof (cases "np_array_int32 (roi_corners height width roi_top_pixel)")
              case (Inl e)
              then show ?thesis using a p s0 s1 s2 s3 hw s4 s5 by (simp add: lane_defs snd_draw_case_other snd_draw_case_length nth_list_update)
            next
              case s6: (Inr vertices)
              show ?thesis
              proof (cases "filled cv [vertices] 255 \<lparr>shape = shape edges, data = replicate (length (data edges)) 0\<rparr>")
                case (Inl e)
                then show ?thesis using a p s0 s1 s2 s3 hw s4 s5 s6 by (simp add: lane_defs snd_draw_case_other snd_draw_case_length nth_list_update)
              next
                case s7: (Inr roi_mask)
                show ?thesis
                proof (cases "anded edges roi_mask")
                  case (Inl e)
                  then show ?thesis using a p s0 s1 s2 s3 hw s4 s5 s6 s7 by (simp add: lane_defs snd_draw_case_other snd_draw_case_length nth_list_update)
                next
                  case s8: (Inr edges_roi)
                  show ?thesis
                  proof (cases "hough_lines cv 1 hough_theta ht hl hg edges_roi")
                    case (Inl e)
                    then show ?thesis using a p s0 s1 s2 s3 hw s4 s5 s6 s7 s8 by (simp add: lane_defs snd_draw_case_other snd_draw_case_length nth_list_update)
                  next
                    case s9: (Inr lines)
                    show ?thesis
                    proof (cases "drawn_rows cv (case lines of None \<Rightarrow> [] | Some rows \<Rightarrow> rows) (h ! original_image self)")
                      case (Inl e)
                      then show ?thesis using a p s0 s1 s2 s3 hw s4 s5 s6 s7 s8 s9 by (simp add: lane_defs snd_draw_case_other snd_draw_case_length nth_list_update)
                    next
                      case s10: (Inr drawn)
                      show ?thesis
                      proof (cases "with_polylines cv [vertices] True (255, 0, 0) 2 drawn")
                        case (Inl e)
                        then show ?thesis using a p s0 s1 s2 s3 hw s4 s5 s6 s7 s8 s9 s10 by (simp add: lane_defs snd_draw_case_other snd_draw_case_length nth_list_update)
                      next
                        case s11: (Inr result_image)
                        show ?thesis using a p s0 s1 s2 s3 hw s4 s5 s6 s7 s8 s9 s10 s11 by (simp add: lane_defs snd_draw_case_other snd_draw_case_length nth_list_update)
                      qed
                    qed
                  qed
                qed
              qed
            qed
          qed
        qed
      qed
    qed
  qed
qed

lemma and_then_eq_Inr: "and_then r f = Inr y \<longleftrightarrow> (\<exists>x. r = Inr x \<and> f x = Inr y)"
  by (cases r) simp_all

lemma detect_value_stages:
  assumes "detect_value cv img cl ch ht hl hg rt rb = Inr t"
  obtains height width roi_top_pixel roi_bottom_pixel drawn where
    "gray_of cv img = Inr (tr_gray t)"
    "blurred_of cv (5, 5) 0 (tr_gray t) = Inr (tr_blurred t)"
    "canny_of cv cl ch (tr_blurred t) = Inr (tr_edges t)"
    "shape2 (shape (tr_edges t)) = Inr (height, width)"
    "percent_pixel height rt = Inr roi_top_pixel"
    "percent_pixel height rb = Inr roi_bottom_pixel"
    "np_array_int32 (roi_corners height width roi_top_pixel) = Inr (tr_vertices t)"
    "filled cv [tr_vertices t] 255
       \<lparr>shape = shape (tr_edges t), data = replicate (length (data (tr_edges t))) 0\<rparr> =
     Inr (tr_roi_mask t)"
    "anded (tr_edges t) (tr_roi_mask t) = Inr (tr_edges_roi t)"
    "hough_lines cv 1 hough_theta ht hl hg (tr_edges_roi t) = Inr (tr_lines t)"
    "drawn_rows cv (case tr_lines t of None \<Rightarrow> [] | Some rows \<Rightarrow> rows) img = Inr drawn"
    "with_polylines cv [tr_vertices t] True (255, 0, 0) 2 drawn = Inr (tr_result_image t)"
  using assms unfolding detect_value_def
  by (auto simp add: and_then_eq_Inr zeros_like_def)

lemma detect_lanes_Inr:
  assumes "original_image self < length h"
    and "detect_lanes cv self cl ch ht hl hg rt rb h = (Inr (result_image, edges, lines), h')"
  obtains t where
    "detect_value cv (h ! original_image self) cl ch ht hl hg rt rb = Inr t"
    "result_image = length h + 5" "edges = length h + 2" "lines = tr_lines t"
    "h' = h @ [tr_gray t, tr_blurred t, tr_edges t, tr_roi_mask t, tr_edges_roi t,
               tr_result_image t]"
proof (cases "detect_value cv (h ! original_image self) cl ch ht hl hg rt rb")
  case (Inl e)
  with detect_lanes_run [OF assms(1), of cv cl ch ht hl hg rt rb] assms(2)
  show ?thesis by simp
next
  case (Inr t)
  with detect_lanes_run [OF assms(1), of cv cl ch ht hl hg rt rb] assms(2)
  show ?thesis by (intro that [of t]) simp_all
qed

lemma observe_detect_lanes:
  assumes "original_image self < length h"
  shows "observe (detect_lanes cv self cl ch ht hl hg rt rb h) =
           (case detect_value cv (h ! original_image self) cl ch ht hl hg rt rb of
              Inl e \<Rightarrow> Inl e
            | Inr t \<Rightarrow> Inr (tr_result_image t, tr_edges t, tr_lines t))"
proof (cases "detect_value cv (h ! original_image self) cl ch ht hl hg rt rb")
  case (Inl e)
  with detect_lanes_run [OF assms, of cv cl ch ht hl hg rt rb]
  show ?thesis
    by (cases "detect_lanes cv self cl ch ht hl hg rt rb h") (simp add: observe_def)
next
  case (Inr t)
  with detect_lanes_run [OF assms, of cv cl ch ht hl hg rt rb]
  show ?thesis by (simp add: observe_def nth_append)
qed

lemma blank_library_white_run:
  "detect_lanes blank_library \<lparr>original_image = 0, image_path = ''white_50x50.png''\<rparr>
       50 150 1000 50 10 50 100 [\<lparr>shape = [50, 50, 3], data = replicate 7500 255\<rparr>] =
     (Inr (6, 3, None),
      [\<lparr>shape = [50, 50, 3], data = replicate 7500 255\<rparr>,
       \<lparr>shape = [50, 50], data = replicate 2500 255\<rparr>,
       \<lparr>shape = [50, 50], data = replicate 2500 255\<rparr>,
       \<lparr>shape = [50, 50], data = replicate 2500 0\<rparr>,
       \<lparr>shape = [50, 50], data = replicate 2500 255\<rparr>,
       \<lparr>shape = [50, 50], data = replicate 2500 0\<rparr>,
       \<lparr>shape = [50, 50, 3], data = replicate 7500 255\<rparr>])"
proof -
  have v: "detect_value blank_library \<lparr>shape = [50, 50, 3], data = replicate 7500 255\<rparr>
       50 150 1000 50 10 50 100 =
     Inr \<lparr>tr_gray = \<lparr>shape = [50, 50], data = replicate 2500 255\<rparr>,
          tr_blurred = \<lparr>shape = [50, 50], data = replicate 2500 255\<rparr>,
          tr_edges = \<lparr>shape = [50, 50], data = replicate 2500 0\<rparr>,
          tr_vertices = [(0, 50), (0, 25), (50, 25), (50, 50)],
          tr_roi_mask = \<lparr>shape = [50, 50], data = replicate 2500 255\<rparr>,
          tr_edges_roi = \<lparr>shape = [50, 50], data = replicate 2500 0\<rparr>,
          tr_lines = None,
          tr_result_image = \<lparr>shape = [50, 50, 3], data = replicate 7500 255\<rparr>\<rparr>"
    by (simp add: detect_value_def blank_library_def gray_of_def blurred_of_def canny_of_def
        array_of_def shape2_def zeros_like_def percent_pixel_exact np_array_int32_def
        roi_corners_def in_int32_def filled_def anded_def hough_lines_def
        with_polylines_def)
  from detect_lanes_run [of "\<lparr>original_image = 0, image_path = ''white_50x50.png''\<rparr>"
      "[\<lparr>shape = [50, 50, 3], data = replicate 7500 255\<rparr>]" blank_library
      50 150 1000 50 10 50 100]
  show ?thesis by (simp add: v)
qed

lemma detect_value_detect:
  "(case detect_value cv img cl ch ht hl hg rt rb of
      Inl e \<Rightarrow> Inl e
    | Inr t \<Rightarrow> Inr (tr_result_image t, tr_edges t, tr_lines t)) =
   detect cv img cl ch ht hl hg rt rb"
  unfolding detect_value_def detect_def edge_map_def annotate_def roi_vertices_def
    roi_mask_of_def render_def zeros_like_def
  by (simp add: and_then_def split: sum.splits prod.splits)

lemma detect_lanes_refines_detect:
  assumes "original_image self < length h"
  shows "observe (detect_lanes cv self cl ch ht hl hg rt rb h) =
           detect cv (h ! original_image self) cl ch ht hl hg rt rb"
  using observe_detect_lanes [OF assms] by (simp add: detect_value_detect)

lemma edge_map_shape:
  assumes "edge_map cv cl ch img = Inr edges"
  shows "shape edges = take 2 (shape img)"
  using assms
  by (auto simp add: edge_map_def gray_of_def blurred_of_def canny_of_def array_of_def
      and_then_eq_Inr split: sum.splits)

lemma bind_liftE_Inr: "bind (liftE (Inr x)) k = k x"
  by (rule ext) simp

lemma roi_vertices_run:
  assumes "shape edges = [H, W]" and "H < 2 ^ 31" "W < 2 ^ 31"
    and "\<bar>int H * rt\<bar> < 2 ^ 31" and "\<bar>int H * rb\<bar> < 2 ^ 53"
  shows "roi_vertices edges rt rb =
           Inr [(0, int H),
                (0, if 0 \<le> int H * rt then (int H * rt) div 100 else - ((- (int H * rt)) div 100)),
                (int W, if 0 \<le> int H * rt then (int H * rt) div 100 else - ((- (int H * rt)) div 100)),
                (int W, int H)]"
proof -
  define T where "T = (if 0 \<le> int H * rt then (int H * rt) div 100 else - ((- (int H * rt)) div 100))"
  have t: "\<bar>int H * rt\<bar> < 2 ^ 53" using assms(4) by simp
  have "\<bar>T\<bar> \<le> \<bar>int H * rt\<bar>"
    unfolding T_def by (auto simp add: abs_if)
  with assms(4) have T: "- (2 ^ 31) \<le> T" "T < 2 ^ 31" by simp_all
  have "int H < int (2 ^ 31)" "int W < int (2 ^ 31)"
    using assms(2,3) by (simp_all only: of_nat_less_iff)
  then have H: "int H < 2 ^ 31" "int W < 2 ^ 31" by simp_all
  show ?thesis
    unfolding T_def [symmetric] using T H
    by (simp add: roi_vertices_def assms(1) shape2_def percent_pixel_exact [OF t]
        percent_pixel_exact [OF assms(5)] np_array_int32_def roi_corners_def in_int32_def
        T_def [symmetric])
qed

lemma int32_range:
  fixes p q :: int
  assumes "0 \<le> p" "p < 2 ^ 30" "0 \<le> q" "q < 2 ^ 30"
  shows "- (2 ^ 31) \<le> p" "p < 2 ^ 31" "- (2 ^ 31) \<le> p + q" "p + q < 2 ^ 31"
  using assms by simp_all

lemma sint_sub_32:
  fixes a b :: "32 word"
  assumes "\<bar>sint b - sint a\<bar> < 2 ^ 15"
  shows "sint (b - a) = sint b - sint a"
proof -
  have "- (2 ^ 31) \<le> sint b - sint a" "sint b - sint a < 2 ^ 31"
    using assms by simp_all
  then show ?thesis
    by (simp add: sint_word_ariths signed_take_bit_int_eq_self)
qed

lemma sint_square_32:
  fixes d :: "32 word"
  assumes "\<bar>sint d\<bar> < 2 ^ 15"
  shows "sint (d ^ 2) = (sint d) ^ 2 \<and> (sint d) ^ 2 < 2 ^ 30"
proof -
  have "\<bar>sint d\<bar> * \<bar>sint d\<bar> < 2 ^ 15 * 2 ^ 15"
    using assms by (intro mult_strict_mono) simp_all
  then have b: "(sint d) ^ 2 < 2 ^ 30"
    by (simp add: power2_eq_square abs_mult_self_eq flip: abs_mult)
  define q where "q = sint d * sint d"
  have "0 \<le> q" by (simp add: q_def)
  moreover have "q < 2 ^ 30" using b by (simp add: q_def power2_eq_square)
  ultimately have "- (2 ^ 31) \<le> q" "q < 2 ^ 31" by simp_all
  then have "- (2 ^ 31) \<le> sint d * sint d" "sint d * sint d < 2 ^ 31"
    unfolding q_def by simp_all
  then have "sint (d * d) = sint d * sint d"
    by (simp add: sint_word_ariths signed_take_bit_int_eq_self)
  with b show ?thesis by (simp add: power2_eq_square)
qed

lemma line_length_exact:
  fixes x1 y1 x2 y2 :: int32
  assumes "\<bar>sint x2 - sint x1\<bar> < 2 ^ 15" "\<bar>sint y2 - sint y1\<bar> < 2 ^ 15"
  shows "line_length (x1, y1, x2, y2) =
           Some (sqrt (real_of_int ((sint x2 - sint x1) ^ 2 + (sint y2 - sint y1) ^ 2)))"
proof -
  note dx = sint_sub_32 [OF assms(1)] and dy = sint_sub_32 [OF assms(2)]
  from assms dx dy have "\<bar>sint (x2 - x1)\<bar> < 2 ^ 15" "\<bar>sint (y2 - y1)\<bar> < 2 ^ 15"
    by simp_all
  note sx = sint_square_32 [OF this(1)] and sy = sint_square_32 [OF this(2)]
  have nn: "0 \<le> sint ((x2 - x1) ^ 2)" "0 \<le> sint ((y2 - y1) ^ 2)"
    using sx sy by simp_all
  have "sint ((x2 - x1) ^ 2) < 2 ^ 30" "sint ((y2 - y1) ^ 2) < 2 ^ 30"
    using sx sy by simp_all
  with nn have "- (2 ^ 31) \<le> sint ((x2 - x1) ^ 2) + sint ((y2 - y1) ^ 2)"
       "sint ((x2 - x1) ^ 2) + sint ((y2 - y1) ^ 2) < 2 ^ 31"
    by (auto intro: int32_range)
  then have "sint ((x2 - x1) ^ 2 + (y2 - y1) ^ 2) =
      sint ((x2 - x1) ^ 2) + sint ((y2 - y1) ^ 2)"
    by (simp add: sint_word_ariths signed_take_bit_int_eq_self)
  then have s: "sint ((x2 - x1) ^ 2 + (y2 - y1) ^ 2) =
      (sint x2 - sint x1) ^ 2 + (sint y2 - sint y1) ^ 2"
    using sx sy dx dy by simp
  have "\<not> (sint x2 - sint x1) ^ 2 + (sint y2 - sint y1) ^ 2 < 0"
    unfolding not_less by (intro add_nonneg_nonneg zero_le_power2)
  then show ?thesis
    unfolding line_length_def np_sqrt_def by (simp only: s prod.case if_False)
qed

lemma np_mean_exact:
  assumes "\<forall>(x1, y1, x2, y2) \<in> set rows.
             \<bar>sint x2 - sint x1\<bar> < 2 ^ 15 \<and> \<bar>sint y2 - sint y1\<bar> < 2 ^ 15"
  shows "np_mean (map line_length rows) = Some (mean_euclidean_length rows)"
proof -
  have l: "line_length s = Some (euclidean_length s)" if "s \<in> set rows" for s
  proof -
    obtain x1 y1 x2 y2 where s: "s = (x1, y1, x2, y2)" by (cases s) auto
    with assms that have "\<bar>sint x2 - sint x1\<bar> < 2 ^ 15" "\<bar>sint y2 - sint y1\<bar> < 2 ^ 15"
      by auto
    then show ?thesis
      unfolding s euclidean_length_def by (simp only: line_length_exact prod.case)
  qed
  then have m: "map line_length rows = map (\<lambda>s. Some (euclidean_length s)) rows"
    by simp
  show ?thesis
    unfolding m np_mean_def mean_euclidean_length_def
    by (simp add: list_all_iff comp_def)
qed

lemma round_half_even_numeral: "round_half_even (numeral n) = numeral n"
  using round_half_even_of_int [of "numeral n"] by simp

lemma run_bind: "bind m f h = (case m h of (Inl e, h') \<Rightarrow> (Inl e, h') | (Inr x, h') \<Rightarrow> f x h')"
  by (simp add: bind_def split: prod.splits sum.splits)

lemma str_nat_digit: "n < 10 \<Longrightarrow> str_nat n = [''0123456789'' ! n]"
  by (simp add: str_nat.simps)

lemma example_rows_mean:
  "mean_euclidean_length [(0, 0, 3, 4), (0, 0, 0, 10)] = 15 / 2"
proof -
  have "sqrt 25 = 5" "sqrt 100 = 10"
    using real_sqrt_abs [of 5] real_sqrt_abs [of 10] by simp_all
  then show ?thesis
    by (simp add: mean_euclidean_length_def euclidean_length_def)
qed

lemma format_1f_example: "format_1f (Some (15 / 2)) = ''7.5''"
  by (simp add: format_1f_def round_half_even_numeral str_nat_digit)

lemma and_then_assoc: "and_then (and_then m f) g = and_then m (\<lambda>x. and_then (f x) g)"
  by (cases m) simp_all

lemma detect_unfolded:
  "detect cv img cl ch ht hl hg rt rb =
     and_then (edge_map cv cl ch img) (\<lambda>edges.
     and_then (roi_vertices edges rt rb) (\<lambda>vertices.
     and_then (roi_mask_of cv vertices edges) (\<lambda>roi_mask.
     and_then (anded edges roi_mask) (\<lambda>edges_roi.
     and_then (hough_lines cv 1 hough_theta ht hl hg edges_roi) (\<lambda>lines.
     and_then (drawn_rows cv (case lines of None \<Rightarrow> [] | Some rows \<Rightarrow> rows) img) (\<lambda>drawn.
     and_then (with_polylines cv [vertices] True (255, 0, 0) 2 drawn) (\<lambda>result_image.
       Inr (result_image, edges, lines))))))))"
  unfolding detect_def annotate_def render_def
  by (simp add: and_then_assoc)

lemma detect_lanes_no_rows:
  assumes "original_image self < length h"
    and "detect_lanes cv self cl ch ht hl hg rt rb h = (Inr (r, e, None), h')"
  shows "r \<noteq> original_image self \<and> r < length h' \<and> e < length h' \<and>
         (\<exists>vertices. roi_vertices (h' ! e) rt rb = Inr vertices \<and>
            with_polylines cv [vertices] True (255, 0, 0) 2 (h ! original_image self) =
              Inr (h' ! r))"
proof (rule detect_lanes_Inr [OF assms])
  fix t
  assume t: "detect_value cv (h ! original_image self) cl ch ht hl hg rt rb = Inr t"
    and r: "r = length h + 5" and e: "e = length h + 2" and l: "None = tr_lines t"
    and h': "h' = h @ [tr_gray t, tr_blurred t, tr_edges t, tr_roi_mask t, tr_edges_roi t,
               tr_result_image t]"
  have re: "h' ! r = tr_result_image t" "h' ! e = tr_edges t"
    by (simp_all add: h' r e nth_append)
  have b: "r \<noteq> original_image self" "r < length h'" "e < length h'"
    using assms(1) by (simp_all add: r e h')
  from t show ?thesis
  proof (rule detect_value_stages)
    fix height width roi_top_pixel roi_bottom_pixel drawn
    assume s: "shape2 (shape (tr_edges t)) = Inr (height, width)"
      "percent_pixel height rt = Inr roi_top_pixel"
      "percent_pixel height rb = Inr roi_bottom_pixel"
      "np_array_int32 (roi_corners height width roi_top_pixel) = Inr (tr_vertices t)"
      and d: "drawn_rows cv (case tr_lines t of None \<Rightarrow> [] | Some rows \<Rightarrow> rows)
              (h ! original_image self) = Inr drawn"
      and p: "with_polylines cv [tr_vertices t] True (255, 0, 0) 2 drawn = Inr (tr_result_image t)"
    from d l [symmetric] have "drawn = h ! original_image self" by simp
    with p have p': "with_polylines cv [tr_vertices t] True (255, 0, 0) 2 (h ! original_image self) =
      Inr (h' ! r)" by (simp add: re)
    have v: "roi_vertices (h' ! e) rt rb = Inr (tr_vertices t)"
      by (simp add: roi_vertices_def s re)
    from b v p' show ?thesis by blast
  qed
qed

lemma hough_tail:
  "and_then (hough_lines cv rho theta ht hl hg edges_roi) (\<lambda>lines.
     and_then (drawn_rows cv (case lines of None \<Rightarrow> [] | Some rows \<Rightarrow> rows) img) (\<lambda>drawn.
     and_then (with_polylines cv [vertices] True (255, 0, 0) 2 drawn) (\<lambda>result_image.
       Inr (result_image, edges, lines)))) =
   (case HoughLinesP cv edges_roi rho theta ht hl hg of
      Inl e \<Rightarrow> Inl e
    | Inr segs \<Rightarrow>
        (if segs = []
         then and_then (with_polylines cv [vertices] True (255, 0, 0) 2 img) (\<lambda>result_image.
                Inr (result_image, edges, None))
         else and_then (render cv (Some segs) vertices img) (\<lambda>result_image.
                Inr (result_image, edges, Some segs))))"
  by (simp add: hough_lines_def render_def and_then_assoc split: sum.splits)

lemma hough_lines_not_empty: "hough_lines cv rho theta ht hl hg a \<noteq> Inr (Some [])"
  by (simp add: hough_lines_def split: sum.splits)

lemma detect_lines_not_empty:
  assumes "detect cv img cl ch ht hl hg rt rb = Inr out"
  shows "snd (snd out) \<noteq> Some []"
proof -
  from assms obtain edges y where
    "annotate cv img edges ht hl hg rt rb = Inr y" and o: "snd (snd out) = snd y"
    by (auto simp add: detect_def and_then_eq_Inr)
  then obtain edges_roi where "hough_lines cv 1 hough_theta ht hl hg edges_roi = Inr (snd y)"
    by (auto simp add: annotate_def and_then_eq_Inr)
  with hough_lines_not_empty [of cv 1 hough_theta ht hl hg edges_roi] o show ?thesis
    by auto
qed

section \<open>The claims\<close>

subsection \<open>Presets\<close>

lemma tuner_ranges_ok_create_widgets: "tuner_ranges_ok (create_widgets d)"
  by (simp add: tuner_ranges_ok_def same_ranges_def create_widgets_def)

text \<open>
  Claim C6.  On a tuner whose sliders have the ranges given to them by
  \<^verbatim>\<open>create_widgets\<close>, pressing the "Aggressive" preset leaves the five edge and line
  sliders at 20, 60, 30, 30 and 20, and the two region sliders, the detector and every
  label exactly as they were.
\<close>

theorem aggressive_preset_frame:
  assumes "tuner_ranges_ok t"
  shows "\<exists>t'. press_preset t ''Aggressive'' = Some t' \<and>
           Scale_get (canny_low_scale t') = 20 \<and>
           Scale_get (canny_high_scale t') = 60 \<and>
           Scale_get (hough_threshold_scale t') = 30 \<and>
           Scale_get (hough_min_length_scale t') = 30 \<and>
           Scale_get (hough_max_gap_scale t') = 20 \<and>
           roi_top_scale t' = roi_top_scale t \<and>
           roi_bottom_scale t' = roi_bottom_scale t \<and>
           t' = t\<lparr>canny_low_scale := canny_low_scale t',
                  canny_high_scale := canny_high_scale t',
                  hough_threshold_scale := hough_threshold_scale t',
                  hough_min_length_scale := hough_min_length_scale t',
                  hough_max_gap_scale := hough_max_gap_scale t'\<rparr>"
  using assms
  by (simp add: press_preset_def preset_buttons_def load_preset_def Let_def
      tuner_ranges_ok_def same_ranges_def create_widgets_def new_Scale_def
      Scale_set_def Scale_get_def)

theorem aggressive_preset_frame_witness:
  "tuner_ranges_ok (create_widgets \<lparr>original_image = 0, image_path = ''road.jpg''\<rparr>) \<and>
   (\<exists>t'. press_preset (create_widgets \<lparr>original_image = 0, image_path = ''road.jpg''\<rparr>)
            ''Aggressive'' = Some t' \<and>
      Scale_get (canny_low_scale t') = 20 \<and> Scale_get (canny_high_scale t') = 60 \<and>
      Scale_get (hough_threshold_scale t') = 30 \<and> Scale_get (hough_min_length_scale t') = 30 \<and>
      Scale_get (hough_max_gap_scale t') = 20 \<and>
      Scale_get (roi_top_scale t') = 38 \<and> Scale_get (roi_bottom_scale t') = 100)"
proof -
  let ?t = "create_widgets \<lparr>original_image = 0, image_path = ''road.jpg''\<rparr>"
  have ok: "tuner_ranges_ok ?t"
    by (rule tuner_ranges_ok_create_widgets)
  from aggressive_preset_frame [OF ok] obtain t' where
    t': "press_preset ?t ''Aggressive'' = Some t'"
      "Scale_get (canny_low_scale t') = 20" "Scale_get (canny_high_scale t') = 60"
      "Scale_get (hough_threshold_scale t') = 30" "Scale_get (hough_min_length_scale t') = 30"
      "Scale_get (hough_max_gap_scale t') = 20"
      "roi_top_scale t' = roi_top_scale ?t" "roi_bottom_scale t' = roi_bottom_scale ?t"
    by blast
  have "Scale_get (roi_top_scale ?t) = 38" "Scale_get (roi_bottom_scale ?t) = 100"
    by (simp_all add: create_widgets_def new_Scale_def Scale_set_def Scale_get_def)
  with ok t' show ?thesis by auto
qed

subsection \<open>Ingestion\<close>

text \<open>
  A source that \<^verbatim>\<open>cv2.imread\<close> cannot decode makes \<^verbatim>\<open>__init__\<close> raise
  \<^verbatim>\<open>ValueError("Could not load image: ...")\<close> at once and leaves the store as it was; a
  decoded image within 1280 by 720 becomes the detector's image as it is.
\<close>

lemma ingestion_load_error:
  "imread cv path = None \<Longrightarrow>
   LaneDetector_init cv path h = (Inl (ValueError (''Could not load image: '' @ path)), h)"
  by (simp add: LaneDetector_init_run)

lemma ingestion_small_image:
  "imread cv path = Some a \<Longrightarrow> shape a = H # W # cs \<Longrightarrow> W \<le> 1280 \<Longrightarrow> H \<le> 720 \<Longrightarrow>
   LaneDetector_init cv path h =
     (Inr \<lparr>original_image = length h, image_path = path\<rparr>, h @ [a])"
  by (simp add: LaneDetector_init_run shape2_def)

text \<open>
  Claim C9.  Every source that can be decoded is to be ingested.  The code does not do
  so for a decodable strip of 10000 by 1 pixels: the height handed to \<^verbatim>\<open>cv2.resize\<close> is
  \<open>int(1 * 0.128) = 0\<close>, \<^verbatim>\<open>cv2.resize\<close> refuses it, and \<^verbatim>\<open>__init__\<close> ends with that
  error instead of a detector.
\<close>

theorem ingestion_decodable_strip_fails:
  "imread blank_library ''strip_10000x1.png'' =
     Some \<lparr>shape = [1, 10000, 3], data = replicate 30000 255\<rparr> \<and>
   scaled_size 10000 1 = Inr (1280, 0) \<and>
   LaneDetector_init blank_library ''strip_10000x1.png'' [] =
     (Inl cv2_error, [\<lparr>shape = [1, 10000, 3], data = replicate 30000 255\<rparr>])"
  by (simp add: LaneDetector_init_run blank_library_def shape2_def scaled_size_10000_1
      resized_def)

text \<open>
  Claim C4, as amended.  An image wider than 1280 or higher than 720 is resized with the
  one factor \<open>min(1280 / width, 720 / height)\<close>, and each new dimension is the scaled
  dimension truncated to an integer, not rounded to the nearest one: with \<open>E\<close> the
  exactly scaled dimension, the new dimension \<open>n\<close> satisfies \<open>\<lceil>E\<rceil> - 1 \<le> n \<le> \<lfloor>E\<rfloor>\<close>, so it
  is \<open>\<lfloor>E\<rfloor>\<close> unless \<open>E\<close> is an integer, where the double arithmetic may fall one short.
  The new width is at most 1280 and the new height at most 720.  When both are positive,
  \<^verbatim>\<open>cv2.resize\<close> is called with exactly this size and its result, of that height and
  width and with the channels of the source, becomes the detector's image.  An image
  within 1280 by 720 is kept as it is.
\<close>

theorem downscale_truncates:
  assumes "imread cv path = Some a" "shape a = H # W # cs"
    and "0 < H" "0 < W" "H < 2 ^ 31" "W < 2 ^ 31"
  defines "\<sigma> \<equiv> min (1280 / real W) (720 / real H)"
  shows "if 1280 < W \<or> 720 < H then
           (\<exists>nw nh. scaled_size (int W) (int H) = Inr (nw, nh) \<and>
              \<lceil>real W * \<sigma>\<rceil> - 1 \<le> nw \<and> nw \<le> \<lfloor>real W * \<sigma>\<rfloor> \<and>
              \<lceil>real H * \<sigma>\<rceil> - 1 \<le> nh \<and> nh \<le> \<lfloor>real H * \<sigma>\<rfloor> \<and>
              nw \<le> 1280 \<and> nh \<le> 720 \<and>
              (0 < nw \<and> 0 < nh \<longrightarrow>
                 LaneDetector_init cv path h =
                   (case resize cv a (nat nw, nat nh) of
                      Inl e \<Rightarrow> (Inl e, h @ [a])
                    | Inr d \<Rightarrow>
                        (Inr \<lparr>original_image = Suc (length h), image_path = path\<rparr>,
                         h @ [a, \<lparr>shape = nat nh # nat nw # cs, data = d\<rparr>]))))
         else LaneDetector_init cv path h =
                (Inr \<lparr>original_image = length h, image_path = path\<rparr>, h @ [a])"
proof (cases "1280 < W \<or> 720 < H")
  case False
  with assms(1,2) show ?thesis
    by (simp add: LaneDetector_init_run shape2_def)
next
  case True
  have b: "0 < int W" "int W < 2 ^ 31" "0 < int H" "int H < 2 ^ 31"
    using assms(3-6) by simp_all
  from scaled_size_exact [OF b] obtain nw nh where
    run: "scaled_size (int W) (int H) = Inr (nw, nh)"
    and w: "\<lceil>real W * \<sigma>\<rceil> - 1 \<le> nw" "nw \<le> \<lfloor>real W * \<sigma>\<rfloor>"
    and h: "\<lceil>real H * \<sigma>\<rceil> - 1 \<le> nh" "nh \<le> \<lfloor>real H * \<sigma>\<rfloor>"
    by (auto simp add: \<sigma>_def)
  have W_pos: "0 < real W" and H_pos: "0 < real H" using assms(3,4) by simp_all
  have "real W * \<sigma> \<le> real W * (1280 / real W)"
    using W_pos by (intro mult_left_mono) (auto simp: \<sigma>_def)
  then have "real W * \<sigma> \<le> 1280" using W_pos by simp
  then have "\<lfloor>real W * \<sigma>\<rfloor> \<le> 1280" by (simp add: floor_le_iff)
  with w(2) have nw_le: "nw \<le> 1280" by linarith
  have "real H * \<sigma> \<le> real H * (720 / real H)"
    using H_pos by (intro mult_left_mono) (auto simp: \<sigma>_def)
  then have "real H * \<sigma> \<le> 720" using H_pos by simp
  then have "\<lfloor>real H * \<sigma>\<rfloor> \<le> 720" by (simp add: floor_le_iff)
  with h(2) have nh_le: "nh \<le> 720" by linarith
  have big: "int W > 1280 \<or> int H > 720" using True by auto
  have init: "LaneDetector_init cv path h =
      (case resize cv a (nat nw, nat nh) of
         Inl e \<Rightarrow> (Inl e, h @ [a])
       | Inr d \<Rightarrow>
           (Inr \<lparr>original_image = Suc (length h), image_path = path\<rparr>,
            h @ [a, \<lparr>shape = nat nh # nat nw # cs, data = d\<rparr>]))"
    if "0 < nw" "0 < nh"
    using assms(1,2) run big that
    by (simp add: LaneDetector_init_run shape2_def resized_def array_of_def split: sum.splits)
  show ?thesis
    using True run w h nw_le nh_le init by auto
qed

theorem downscale_truncates_witness:
  "imread blank_library ''road_1600x901.jpg'' =
     Some \<lparr>shape = [901, 1600, 3], data = replicate 4324800 255\<rparr> \<and>
   (0::nat) < 901 \<and> (0::nat) < 1600 \<and> (901::nat) < 2 ^ 31 \<and> (1600::nat) < 2 ^ 31 \<and>
   scaled_size 1600 901 = Inr (1278, 720) \<and>
   \<lfloor>1600 * min (1280 / 1600) (720 / 901) :: real\<rfloor> = 1278 \<and>
   LaneDetector_init blank_library ''road_1600x901.jpg'' [] =
     (Inr \<lparr>original_image = 1, image_path = ''road_1600x901.jpg''\<rparr>,
      [\<lparr>shape = [901, 1600, 3], data = replicate 4324800 255\<rparr>,
       \<lparr>shape = [720, 1278, 3], data = replicate 2760480 255\<rparr>]) \<and>
   LaneDetector_init blank_library ''white_50x50.png'' [] =
     (Inr \<lparr>original_image = 0, image_path = ''white_50x50.png''\<rparr>,
      [\<lparr>shape = [50, 50, 3], data = replicate 7500 255\<rparr>])"
proof -
  have r: "imread blank_library ''road_1600x901.jpg'' =
     Some \<lparr>shape = [901, 1600, 3], data = replicate 4324800 255\<rparr>"
    by (simp add: blank_library_def)
  have sh: "shape \<lparr>shape = [901, 1600, 3], data = replicate 4324800 255\<rparr> = 901 # 1600 # [3]"
    by simp
  from downscale_truncates [OF r sh, of "[]"]
  have big: "LaneDetector_init blank_library ''road_1600x901.jpg'' [] =
     (Inr \<lparr>original_image = 1, image_path = ''road_1600x901.jpg''\<rparr>,
      [\<lparr>shape = [901, 1600, 3], data = replicate 4324800 255\<rparr>,
       \<lparr>shape = [720, 1278, 3], data = replicate 2760480 255\<rparr>])"
    by (auto simp add: scaled_size_1600_901 blank_library_def)
  have w: "imread blank_library ''white_50x50.png'' =
     Some \<lparr>shape = [50, 50, 3], data = replicate 7500 255\<rparr>"
    by (simp add: blank_library_def)
  have "shape \<lparr>shape = [50, 50, 3], data = replicate 7500 255\<rparr> = 50 # 50 # [3]"
    by simp
  from downscale_truncates [OF w this, of "[]"]
  have small: "LaneDetector_init blank_library ''white_50x50.png'' [] =
     (Inr \<lparr>original_image = 0, image_path = ''white_50x50.png''\<rparr>,
      [\<lparr>shape = [50, 50, 3], data = replicate 7500 255\<rparr>])"
    by simp
  have fl: "\<lfloor>1600 * min (1280 / 1600) (720 / 901) :: real\<rfloor> = 1278" by simp
  from r big small fl scaled_size_1600_901 show ?thesis by simp
qed

text \<open>
  The claim as it stands fails on an image of 1600 by 901 pixels: the scaled width is
  1278.579..., which rounds to 1279, and the code asks for 1278.
\<close>

theorem downscale_not_nearest:
  "scaled_size 1600 901 = Inr (1278, 720) \<and>
   round (1600 * min (1280 / 1600) (720 / 901) :: real) = 1279"
  by (simp add: scaled_size_1600_901 round_def)

text \<open>
  Claim C1, as amended.  When \<^verbatim>\<open>cv2.HoughLinesP\<close> finds no segment, \<^verbatim>\<open>detect_lanes\<close> returns
  \<^verbatim>\<open>None\<close> as its \<^verbatim>\<open>lines\<close>: the drawing loop is skipped, the outline is drawn on the
  copy of the image, and the run fails only if a library call fails.  With segments it
  returns them.  So \<^verbatim>\<open>lines\<close> is \<^verbatim>\<open>None\<close> or a sequence that is not empty, never an
  empty sequence.
\<close>

theorem no_segments_is_None:
  assumes "original_image self < length h"
  shows "observe (detect_lanes cv self cl ch ht hl hg rt rb h) =
           and_then (edge_map cv cl ch (h ! original_image self)) (\<lambda>edges.
           and_then (roi_vertices edges rt rb) (\<lambda>vertices.
           and_then (roi_mask_of cv vertices edges) (\<lambda>roi_mask.
           and_then (anded edges roi_mask) (\<lambda>edges_roi.
             (case HoughLinesP cv edges_roi 1 hough_theta ht hl hg of
                Inl e \<Rightarrow> Inl e
              | Inr segs \<Rightarrow>
                  (if segs = []
                   then and_then (with_polylines cv [vertices] True (255, 0, 0) 2
                                    (h ! original_image self)) (\<lambda>result_image.
                          Inr (result_image, edges, None))
                   else and_then (render cv (Some segs) vertices (h ! original_image self))
                          (\<lambda>result_image. Inr (result_image, edges, Some segs)))))))) \<and>
         (\<forall>out. observe (detect_lanes cv self cl ch ht hl hg rt rb h) = Inr out \<longrightarrow>
            snd (snd out) \<noteq> Some [])"
  using assms
  by (simp add: detect_lanes_refines_detect detect_lines_not_empty)
     (simp add: detect_unfolded hough_tail)

theorem no_segments_is_None_witness:
  "original_image \<lparr>original_image = 0, image_path = ''white_50x50.png''\<rparr> <
     length [\<lparr>shape = [50, 50, 3], data = replicate 7500 (255 :: 8 word)\<rparr>] \<and>
   HoughLinesP blank_library \<lparr>shape = [50, 50], data = replicate 2500 0\<rparr> 1 hough_theta 30 30 20 =
     Inr [] \<and>
   observe (detect_lanes blank_library \<lparr>original_image = 0, image_path = ''white_50x50.png''\<rparr>
       20 60 30 30 20 38 100 [\<lparr>shape = [50, 50, 3], data = replicate 7500 255\<rparr>]) =
     Inr (\<lparr>shape = [50, 50, 3], data = replicate 7500 255\<rparr>,
          \<lparr>shape = [50, 50], data = replicate 2500 0\<rparr>, None)"
proof -
  define w :: ndarray where "w = \<lparr>shape = [50, 50, 3], data = replicate 7500 255\<rparr>"
  define S where "S = \<lparr>original_image = 0, image_path = ''white_50x50.png''\<rparr>"
  have a: "original_image S < length [w]"
    by (simp add: S_def)
  have i: "[w] ! original_image S = w"
    by (simp add: S_def)
  have e: "HoughLinesP blank_library \<lparr>shape = [50, 50], data = replicate 2500 0\<rparr> 1 hough_theta
      30 30 20 = Inr []"
    by (simp add: blank_library_def)
  from no_segments_is_None [OF a, of blank_library 20 60 30 30 20 38 100, THEN conjunct1]
  have "observe (detect_lanes blank_library S 20 60 30 30 20 38 100 [w]) =
        and_then (edge_map blank_library 20 60 w) (\<lambda>edges.
           and_then (roi_vertices edges 38 100) (\<lambda>vertices.
           and_then (roi_mask_of blank_library vertices edges) (\<lambda>roi_mask.
           and_then (anded edges roi_mask) (\<lambda>edges_roi.
             (case HoughLinesP blank_library edges_roi 1 hough_theta 30 30 20 of
                Inl e \<Rightarrow> Inl e
              | Inr segs \<Rightarrow>
                  (if segs = []
                   then and_then (with_polylines blank_library [vertices] True (255, 0, 0) 2 w)
                          (\<lambda>result_image. Inr (result_image, edges, None))
                   else and_then (render blank_library (Some segs) vertices w)
                          (\<lambda>result_image. Inr (result_image, edges, Some segs))))))))"
    by (simp only: i)
  also have "\<dots> = Inr (w, \<lparr>shape = [50, 50], data = replicate 2500 0\<rparr>, None)"
    by (simp add: w_def edge_map_def roi_vertices_def roi_mask_of_def blank_library_def
        gray_of_def blurred_of_def canny_of_def array_of_def shape2_def percent_pixel_exact
        np_array_int32_def roi_corners_def in_int32_def filled_def anded_def
        with_polylines_def)
  finally have "observe (detect_lanes blank_library S 20 60 30 30 20 38 100 [w]) =
      Inr (w, \<lparr>shape = [50, 50], data = replicate 2500 0\<rparr>, None)" .
  with a e show ?thesis unfolding w_def S_def by (intro conjI)
qed

text \<open>
  The run of the specification's example (a blank white image of 50 by 50 pixels,
  threshold 1000): no segment is found, the run succeeds, and its \<^verbatim>\<open>lines\<close> is \<^verbatim>\<open>None\<close>,
  not an empty sequence.
\<close>

theorem no_segments_not_empty_sequence:
  "HoughLinesP blank_library \<lparr>shape = [50, 50], data = replicate 2500 0\<rparr> 1 hough_theta 1000 50 10 =
     Inr [] \<and>
   fst (detect_lanes blank_library \<lparr>original_image = 0, image_path = ''white_50x50.png''\<rparr>
       50 150 1000 50 10 50 100 [\<lparr>shape = [50, 50, 3], data = replicate 7500 255\<rparr>]) =
     Inr (6, 3, None)"
  by (simp add: blank_library_white_run) (simp add: blank_library_def)

text \<open>
  Claim C5.  Two invocations of \<^verbatim>\<open>detect_lanes\<close> with the same parameters, the second
  on the store the first one left, show the caller the same thing: the same exception,
  or an annotated image and an edge map with the same contents and the same rows of
  lines in the same order.  The first run leaves the detector's image as it was; and
  any detector whose image has the same contents, in any store, gives the same again.
\<close>

theorem detect_lanes_twice:
  assumes "original_image self < length h"
  shows "observe (detect_lanes cv self cl ch ht hl hg rt rb
                    (snd (detect_lanes cv self cl ch ht hl hg rt rb h))) =
           observe (detect_lanes cv self cl ch ht hl hg rt rb h) \<and>
         snd (detect_lanes cv self cl ch ht hl hg rt rb h) ! original_image self =
           h ! original_image self \<and>
         (\<forall>self2 h2. original_image self2 < length h2 \<and>
              h2 ! original_image self2 = h ! original_image self \<longrightarrow>
            observe (detect_lanes cv self2 cl ch ht hl hg rt rb h2) =
              observe (detect_lanes cv self cl ch ht hl hg rt rb h))"
proof -
  note f = detect_lanes_frame [OF assms assms, of cv cl ch ht hl hg rt rb]
  have "observe (detect_lanes cv self cl ch ht hl hg rt rb
                    (snd (detect_lanes cv self cl ch ht hl hg rt rb h))) =
        detect cv (h ! original_image self) cl ch ht hl hg rt rb"
    using f by (simp add: detect_lanes_refines_detect)
  then show ?thesis
    using f assms by (simp add: detect_lanes_refines_detect)
qed

theorem detect_lanes_twice_witness:
  "(0::nat) < length [\<lparr>shape = [50, 50, 3], data = replicate 7500 (255 :: 8 word)\<rparr>] \<and>
   observe (detect_lanes blank_library \<lparr>original_image = 0, image_path = ''white_50x50.png''\<rparr>
      50 150 1000 50 10 50 100
      (snd (detect_lanes blank_library \<lparr>original_image = 0, image_path = ''white_50x50.png''\<rparr>
         50 150 1000 50 10 50 100 [\<lparr>shape = [50, 50, 3], data = replicate 7500 255\<rparr>]))) =
   Inr (\<lparr>shape = [50, 50, 3], data = replicate 7500 255\<rparr>,
        \<lparr>shape = [50, 50], data = replicate 2500 0\<rparr>, None)"
proof -
  have a: "original_image \<lparr>original_image = 0, image_path = ''white_50x50.png''\<rparr> <
      length [\<lparr>shape = [50, 50, 3], data = replicate 7500 (255 :: 8 word)\<rparr>]"
    by simp
  from detect_lanes_twice [OF a, of blank_library 50 150 1000 50 10 50 100]
  show ?thesis
    by (simp add: blank_library_white_run observe_def)
qed

text \<open>
  Claim C2.  \<^verbatim>\<open>roi_bottom\<close> is converted to a pixel row (\<^verbatim>\<open>roi_bottom_pixel\<close>) that
  nothing reads.  For an image of \<open>H\<close> rows and two values of \<^verbatim>\<open>roi_bottom\<close> whose
  products with \<open>H\<close> are below \<open>2\<^sup>5\<^sup>3\<close> in absolute value (the slider gives 0 to 100),
  the two runs of \<^verbatim>\<open>detect_lanes\<close> are equal in everything: the same outcome, the same
  \<^verbatim>\<open>lines\<close>, and the same store after the run, region mask and annotated image
  included.
\<close>

theorem roi_bottom_ignored:
  assumes "original_image self < length h"
    and "shape (h ! original_image self) = H # W # cs"
    and "\<bar>int H * rb\<bar> < 2 ^ 53" and "\<bar>int H * rb'\<bar> < 2 ^ 53"
  shows "detect_lanes cv self cl ch ht hl hg rt rb h =
         detect_lanes cv self cl ch ht hl hg rt rb' h"
proof (cases "cvtColor_BGR2GRAY cv (h ! original_image self)")
  case (Inl e)
  then show ?thesis using assms(1)
    by (simp add: detect_lanes_def cv2_cvtColor_BGR2GRAY_def new_from_def gray_of_def array_of_def)
next
  case s0: (Inr g)
  show ?thesis
  proof (cases "GaussianBlur cv \<lparr>shape = [H, W], data = g\<rparr> (5, 5) 0")
    case (Inl e)
    then show ?thesis using assms(1,2) s0
      by (simp add: detect_lanes_def cv2_cvtColor_BGR2GRAY_def cv2_GaussianBlur_def
          gray_of_def blurred_of_def array_of_def nth_append)
  next
    case s1: (Inr b)
    show ?thesis
    proof (cases "Canny cv \<lparr>shape = [H, W], data = b\<rparr> cl ch")
      case (Inl e)
      then show ?thesis using assms(1,2) s0 s1
        by (simp add: detect_lanes_def cv2_cvtColor_BGR2GRAY_def cv2_GaussianBlur_def
            cv2_Canny_def gray_of_def blurred_of_def canny_of_def array_of_def nth_append)
    next
      case s2: (Inr c)
      show ?thesis using assms s0 s1 s2
        by (simp add: detect_lanes_def cv2_cvtColor_BGR2GRAY_def cv2_GaussianBlur_def
            cv2_Canny_def gray_of_def blurred_of_def canny_of_def array_of_def nth_append
            shape2_def percent_pixel_exact np_zeros_like_def zeros_like_def bind_liftE_Inr)
    qed
  qed
qed

theorem roi_bottom_ignored_witness:
  "original_image \<lparr>original_image = 0, image_path = ''white_50x50.png''\<rparr> <
     length [\<lparr>shape = [50, 50, 3], data = replicate 7500 (255 :: 8 word)\<rparr>] \<and>
   shape ([\<lparr>shape = [50, 50, 3], data = replicate 7500 (255 :: 8 word)\<rparr>] !
     original_image \<lparr>original_image = 0, image_path = ''white_50x50.png''\<rparr>) = 50 # 50 # [3] \<and>
   \<bar>int 50 * 100\<bar> < (2 ^ 53 :: int) \<and> \<bar>int 50 * 0\<bar> < (2 ^ 53 :: int) \<and>
   detect_lanes blank_library \<lparr>original_image = 0, image_path = ''white_50x50.png''\<rparr>
       50 150 1000 50 10 50 0 [\<lparr>shape = [50, 50, 3], data = replicate 7500 255\<rparr>] =
     (Inr (6, 3, None),
      [\<lparr>shape = [50, 50, 3], data = replicate 7500 255\<rparr>,
       \<lparr>shape = [50, 50], data = replicate 2500 255\<rparr>,
       \<lparr>shape = [50, 50], data = replicate 2500 255\<rparr>,
       \<lparr>shape = [50, 50], data = replicate 2500 0\<rparr>,
       \<lparr>shape = [50, 50], data = replicate 2500 255\<rparr>,
       \<lparr>shape = [50, 50], data = replicate 2500 0\<rparr>,
       \<lparr>shape = [50, 50, 3], data = replicate 7500 255\<rparr>])"
proof -
  have a: "original_image \<lparr>original_image = 0, image_path = ''white_50x50.png''\<rparr> <
     length [\<lparr>shape = [50, 50, 3], data = replicate 7500 (255 :: 8 word)\<rparr>]"
    by simp
  have s: "shape ([\<lparr>shape = [50, 50, 3], data = replicate 7500 (255 :: 8 word)\<rparr>] !
     original_image \<lparr>original_image = 0, image_path = ''white_50x50.png''\<rparr>) = 50 # 50 # [3]"
    by simp
  have r: "\<bar>int 50 * 100\<bar> < (2 ^ 53 :: int)" "\<bar>int 50 * 0\<bar> < (2 ^ 53 :: int)"
    by simp_all
  from roi_bottom_ignored [OF a s r, of blank_library 50 150 1000 50 10 50]
  have "detect_lanes blank_library \<lparr>original_image = 0, image_path = ''white_50x50.png''\<rparr>
       50 150 1000 50 10 50 0 [\<lparr>shape = [50, 50, 3], data = replicate 7500 255\<rparr>] =
     detect_lanes blank_library \<lparr>original_image = 0, image_path = ''white_50x50.png''\<rparr>
       50 150 1000 50 10 50 100 [\<lparr>shape = [50, 50, 3], data = replicate 7500 255\<rparr>]"
    by simp
  then have "detect_lanes blank_library \<lparr>original_image = 0, image_path = ''white_50x50.png''\<rparr>
       50 150 1000 50 10 50 0 [\<lparr>shape = [50, 50, 3], data = replicate 7500 255\<rparr>] =
     (Inr (6, 3, None),
      [\<lparr>shape = [50, 50, 3], data = replicate 7500 255\<rparr>,
       \<lparr>shape = [50, 50], data = replicate 2500 255\<rparr>,
       \<lparr>shape = [50, 50], data = replicate 2500 255\<rparr>,
       \<lparr>shape = [50, 50], data = replicate 2500 0\<rparr>,
       \<lparr>shape = [50, 50], data = replicate 2500 255\<rparr>,
       \<lparr>shape = [50, 50], data = replicate 2500 0\<rparr>,
       \<lparr>shape = [50, 50, 3], data = replicate 7500 255\<rparr>])"
    by (simp only: blank_library_white_run)
  with a s r show ?thesis by (intro conjI)
qed

text \<open>
  Claim C10.  The edge map that \<^verbatim>\<open>detect_lanes\<close> returns is the output of
  \<^verbatim>\<open>cv2.Canny\<close> on the blurred grayscale image (\<open>edge_map\<close>: grayscale, then the 5 by 5
  Gaussian blur with \<^verbatim>\<open>sigmaX = 0\<close>, then Canny with the two thresholds), as it was
  before the region mask was applied: what a caller sees of a run is that edge map
  followed by the annotation made from it.  So two runs on images of the same
  contents with the same Canny thresholds return edge maps of the same contents,
  whatever the ROI and Hough parameters of each run.
\<close>

theorem edge_map_before_masking:
  assumes "original_image self < length h"
  shows "observe (detect_lanes cv self cl ch ht hl hg rt rb h) =
           and_then (edge_map cv cl ch (h ! original_image self)) (\<lambda>edges.
           and_then (annotate cv (h ! original_image self) edges ht hl hg rt rb)
             (\<lambda>(result_image, lines). Inr (result_image, edges, lines))) \<and>
         (\<forall>self2 h2 ht2 hl2 hg2 rt2 rb2 out out2.
            original_image self2 < length h2 \<and>
            h2 ! original_image self2 = h ! original_image self \<and>
            observe (detect_lanes cv self cl ch ht hl hg rt rb h) = Inr out \<and>
            observe (detect_lanes cv self2 cl ch ht2 hl2 hg2 rt2 rb2 h2) = Inr out2 \<longrightarrow>
            fst (snd out2) = fst (snd out) \<and>
            edge_map cv cl ch (h ! original_image self) = Inr (fst (snd out)))"
proof -
  have e: "edge_map cv cl ch img = Inr (fst (snd out))"
    if "detect cv img cl ch ht' hl' hg' rt' rb' = Inr out" for img ht' hl' hg' rt' rb' out
    using that by (auto simp add: detect_def and_then_eq_Inr)
  show ?thesis
  proof (intro conjI allI impI)
    show "observe (detect_lanes cv self cl ch ht hl hg rt rb h) =
           and_then (edge_map cv cl ch (h ! original_image self)) (\<lambda>edges.
           and_then (annotate cv (h ! original_image self) edges ht hl hg rt rb)
             (\<lambda>(result_image, lines). Inr (result_image, edges, lines)))"
      using assms by (simp add: detect_lanes_refines_detect detect_def)
  next
    fix self2 h2 ht2 hl2 hg2 rt2 rb2 out out2
    assume p: "original_image self2 < length h2 \<and>
            h2 ! original_image self2 = h ! original_image self \<and>
            observe (detect_lanes cv self cl ch ht hl hg rt rb h) = Inr out \<and>
            observe (detect_lanes cv self2 cl ch ht2 hl2 hg2 rt2 rb2 h2) = Inr out2"
    then have "detect cv (h ! original_image self) cl ch ht hl hg rt rb = Inr out"
      using assms by (simp add: detect_lanes_refines_detect)
    then have 1: "edge_map cv cl ch (h ! original_image self) = Inr (fst (snd out))"
      by (rule e)
    from p have a2: "original_image self2 < length h2"
      and i2: "h2 ! original_image self2 = h ! original_image self"
      and o2: "observe (detect_lanes cv self2 cl ch ht2 hl2 hg2 rt2 rb2 h2) = Inr out2"
      by simp_all
    from o2 have "detect cv (h2 ! original_image self2) cl ch ht2 hl2 hg2 rt2 rb2 = Inr out2"
      by (simp only: detect_lanes_refines_detect [OF a2])
    then have "detect cv (h ! original_image self) cl ch ht2 hl2 hg2 rt2 rb2 = Inr out2"
      by (simp only: i2)
    then have 2: "edge_map cv cl ch (h ! original_image self) = Inr (fst (snd out2))"
      by (rule e)
    from 1 2 show "fst (snd out2) = fst (snd out)" by simp
    from 1 show "edge_map cv cl ch (h ! original_image self) = Inr (fst (snd out))" .
  qed
qed

theorem edge_map_before_masking_witness:
  "original_image \<lparr>original_image = 0, image_path = ''white_50x50.png''\<rparr> <
     length [\<lparr>shape = [50, 50, 3], data = replicate 7500 (255 :: 8 word)\<rparr>] \<and>
   observe (detect_lanes blank_library \<lparr>original_image = 0, image_path = ''white_50x50.png''\<rparr>
       50 150 1000 50 10 50 100 [\<lparr>shape = [50, 50, 3], data = replicate 7500 255\<rparr>]) =
     Inr (\<lparr>shape = [50, 50, 3], data = replicate 7500 255\<rparr>,
          \<lparr>shape = [50, 50], data = replicate 2500 0\<rparr>, None) \<and>
   observe (detect_lanes blank_library \<lparr>original_image = 0, image_path = ''white_50x50.png''\<rparr>
       50 150 30 30 20 10 90 [\<lparr>shape = [50, 50, 3], data = replicate 7500 255\<rparr>]) =
     Inr (\<lparr>shape = [50, 50, 3], data = replicate 7500 255\<rparr>,
          \<lparr>shape = [50, 50], data = replicate 2500 0\<rparr>, None) \<and>
   edge_map blank_library 50 150 \<lparr>shape = [50, 50, 3], data = replicate 7500 255\<rparr> =
     Inr \<lparr>shape = [50, 50], data = replicate 2500 0\<rparr>"
proof -
  define w :: ndarray where "w = \<lparr>shape = [50, 50, 3], data = replicate 7500 255\<rparr>"
  define S where "S = \<lparr>original_image = 0, image_path = ''white_50x50.png''\<rparr>"
  have a: "original_image S < length [w]"
    by (simp add: S_def)
  have 1: "observe (detect_lanes blank_library S 50 150 1000 50 10 50 100 [w]) =
     Inr (w, \<lparr>shape = [50, 50], data = replicate 2500 0\<rparr>, None)"
    by (simp add: S_def w_def blank_library_white_run observe_def)
  have "detect blank_library w 50 150 30 30 20 10 90 =
     Inr (w, \<lparr>shape = [50, 50], data = replicate 2500 0\<rparr>, None)"
    by (simp add: w_def detect_def edge_map_def annotate_def roi_vertices_def roi_mask_of_def
      render_def blank_library_def gray_of_def blurred_of_def canny_of_def
      array_of_def shape2_def percent_pixel_exact np_array_int32_def
      roi_corners_def in_int32_def filled_def anded_def hough_lines_def
      with_polylines_def)
  then have 2: "observe (detect_lanes blank_library S 50 150 30 30 20 10 90 [w]) =
     Inr (w, \<lparr>shape = [50, 50], data = replicate 2500 0\<rparr>, None)"
    using a by (simp add: detect_lanes_refines_detect S_def)
  from edge_map_before_masking [OF a, of blank_library 50 150 1000 50 10 50 100,
      THEN conjunct2, rule_format,
      where ?self2.0 = S and ?h2.0 = "[w]" and ?ht2.0 = 30 and ?hl2.0 = 30 and ?hg2.0 = 20
        and ?rt2.0 = 10 and ?rb2.0 = 90
        and out = "(w, \<lparr>shape = [50, 50], data = replicate 2500 0\<rparr>, None)"
        and ?out2.0 = "(w, \<lparr>shape = [50, 50], data = replicate 2500 0\<rparr>, None)"] a 1 2
  have "edge_map blank_library 50 150 w = Inr \<lparr>shape = [50, 50], data = replicate 2500 0\<rparr>"
    by simp
  with a 1 2 show ?thesis
    unfolding S_def w_def by (intro conjI)
qed

text \<open>
  Claim C3.  For a detector image of \<open>H\<close> rows and \<open>W\<close> columns (both below \<open>2\<^sup>3\<^sup>1\<close>, and
  \<open>H\<close> times each ROI percentage within the bounds below, which the sliders' 0 to 100
  always are), the trapezoid of \<^verbatim>\<open>detect_lanes\<close> has the four vertices \<open>(0, H)\<close>,
  \<open>(0, T)\<close>, \<open>(W, T)\<close>, \<open>(W, H)\<close>, in this order, where \<open>T\<close> is \<open>H * roi_top / 100\<close>
  truncated towards zero (the integer quotient \<open>H * roi_top div 100\<close> for a percentage
  that is not negative).  It is this polygon that \<^verbatim>\<open>cv2.fillPoly\<close> fills with 255 on the
  zero mask that is then combined with the edge map, and that \<^verbatim>\<open>cv2.polylines\<close> outlines
  on the annotated image.
\<close>

theorem roi_trapezoid:
  assumes "original_image self < length h"
    and "shape (h ! original_image self) = H # W # cs"
    and "H < 2 ^ 31" "W < 2 ^ 31"
    and "\<bar>int H * rt\<bar> < 2 ^ 31" and "\<bar>int H * rb\<bar> < 2 ^ 53"
  defines "T \<equiv> if 0 \<le> int H * rt then (int H * rt) div 100 else - ((- (int H * rt)) div 100)"
  defines "vs \<equiv> [(0, int H), (0, T), (int W, T), (int W, int H)]"
  shows "observe (detect_lanes cv self cl ch ht hl hg rt rb h) =
           and_then (edge_map cv cl ch (h ! original_image self)) (\<lambda>edges.
           and_then (filled cv [vs] 255
                       \<lparr>shape = [H, W], data = replicate (length (data edges)) 0\<rparr>) (\<lambda>roi_mask.
           and_then (anded edges roi_mask) (\<lambda>edges_roi.
           and_then (hough_lines cv 1 hough_theta ht hl hg edges_roi) (\<lambda>lines.
           and_then (render cv lines vs (h ! original_image self)) (\<lambda>result_image.
             Inr (result_image, edges, lines))))))"
proof (cases "edge_map cv cl ch (h ! original_image self)")
  case (Inl e)
  then show ?thesis
    using assms(1) by (simp add: detect_lanes_refines_detect detect_def)
next
  case (Inr edges)
  from edge_map_shape [OF Inr] assms(2) have s: "shape edges = [H, W]" by simp
  have v: "roi_vertices edges rt rb = Inr vs"
    unfolding vs_def T_def using s assms(3-6) by (rule roi_vertices_run)
  show ?thesis
    using assms(1)
    by (simp add: detect_lanes_refines_detect detect_def annotate_def Inr v roi_mask_of_def s
        and_then_def split: sum.splits)
qed

theorem roi_trapezoid_witness:
  "original_image \<lparr>original_image = 0, image_path = ''road_1280x720.jpg''\<rparr> <
     length [\<lparr>shape = [720, 1280, 3], data = replicate 2764800 (255 :: 8 word)\<rparr>] \<and>
   shape ([\<lparr>shape = [720, 1280, 3], data = replicate 2764800 (255 :: 8 word)\<rparr>] !
     original_image \<lparr>original_image = 0, image_path = ''road_1280x720.jpg''\<rparr>) =
     720 # 1280 # [3] \<and>
   (720 :: nat) < 2 ^ 31 \<and> (1280 :: nat) < 2 ^ 31 \<and>
   \<bar>int 720 * 38\<bar> < 2 ^ 31 \<and> \<bar>int 720 * 100\<bar> < 2 ^ 53 \<and>
   (if 0 \<le> int 720 * 38 then (int 720 * 38) div 100 else - ((- (int 720 * 38)) div 100)) = 273 \<and>
   observe (detect_lanes blank_library \<lparr>original_image = 0, image_path = ''road_1280x720.jpg''\<rparr>
       50 281 66 50 10 38 100 [\<lparr>shape = [720, 1280, 3], data = replicate 2764800 255\<rparr>]) =
     and_then (filled blank_library [[(0, 720), (0, 273), (1280, 273), (1280, 720)]] 255
                 \<lparr>shape = [720, 1280], data = replicate 921600 0\<rparr>) (\<lambda>roi_mask.
       and_then (render blank_library None [(0, 720), (0, 273), (1280, 273), (1280, 720)]
                   \<lparr>shape = [720, 1280, 3], data = replicate 2764800 255\<rparr>) (\<lambda>result_image.
         Inr (result_image, \<lparr>shape = [720, 1280], data = replicate 921600 0\<rparr>, None)))"
proof -
  define S where "S = \<lparr>original_image = 0, image_path = ''road_1280x720.jpg''\<rparr>"
  define w :: ndarray where "w = \<lparr>shape = [720, 1280, 3], data = replicate 2764800 255\<rparr>"
  have a: "original_image S < length [w]" by (simp add: S_def)
  have s: "shape ([w] ! original_image S) = 720 # 1280 # [3]" by (simp add: S_def w_def)
  have r: "(720 :: nat) < 2 ^ 31" "(1280 :: nat) < 2 ^ 31"
    "\<bar>int 720 * 38\<bar> < 2 ^ 31" "\<bar>int 720 * 100\<bar> < 2 ^ 53"
    by simp_all
  have e: "edge_map blank_library 50 281 w = Inr \<lparr>shape = [720, 1280], data = replicate 921600 0\<rparr>"
    by (simp add: w_def edge_map_def blank_library_def gray_of_def blurred_of_def canny_of_def
        array_of_def)
  have m: "anded \<lparr>shape = [720, 1280], data = replicate 921600 0\<rparr>
             \<lparr>shape = [720, 1280], data = replicate 921600 255\<rparr> =
           Inr \<lparr>shape = [720, 1280], data = replicate 921600 0\<rparr>"
    by (simp add: anded_def)
  from roi_trapezoid [OF a s r, of blank_library 50 281 66 50 10]
  have "observe (detect_lanes blank_library S 50 281 66 50 10 38 100 [w]) =
     and_then (filled blank_library [[(0, 720), (0, 273), (1280, 273), (1280, 720)]] 255
                 \<lparr>shape = [720, 1280], data = replicate 921600 0\<rparr>) (\<lambda>roi_mask.
       and_then (render blank_library None [(0, 720), (0, 273), (1280, 273), (1280, 720)] w)
         (\<lambda>result_image.
         Inr (result_image, \<lparr>shape = [720, 1280], data = replicate 921600 0\<rparr>, None)))"
    by (simp add: e S_def) (simp add: filled_def blank_library_def array_of_def m hough_lines_def)
  with a s r show ?thesis
    unfolding S_def w_def by (intro conjI) simp_all
qed



text \<open>
  Claim C8.  What a caller sees of a run: every row of \<^verbatim>\<open>lines\<close> is drawn with
  \<^verbatim>\<open>cv2.line\<close> in green, two pixels wide, in the order of the array, on a copy of the
  detector's image, and \<^verbatim>\<open>cv2.polylines\<close> then draws the closed outline of the
  trapezoid, two pixels wide, on what the rows left.  The detector's image itself is
  never written.  When \<^verbatim>\<open>lines\<close> is \<^verbatim>\<open>None\<close>, the annotated image has the shape of the
  source and exactly the elements that \<^verbatim>\<open>cv2.polylines\<close> computes from the elements
  of the source for that outline: it differs from the source only where
  \<^verbatim>\<open>cv2.polylines\<close> writes the outline.
\<close>

theorem annotation_order:
  assumes "original_image self < length h"
  shows "observe (detect_lanes cv self cl ch ht hl hg rt rb h) =
           and_then (edge_map cv cl ch (h ! original_image self)) (\<lambda>edges.
           and_then (roi_vertices edges rt rb) (\<lambda>vertices.
           and_then (roi_mask_of cv vertices edges) (\<lambda>roi_mask.
           and_then (anded edges roi_mask) (\<lambda>edges_roi.
           and_then (hough_lines cv 1 hough_theta ht hl hg edges_roi) (\<lambda>lines.
           and_then (drawn_rows cv (case lines of None \<Rightarrow> [] | Some rows \<Rightarrow> rows)
                       (h ! original_image self)) (\<lambda>drawn.
           and_then (with_polylines cv [vertices] True (255, 0, 0) 2 drawn) (\<lambda>result_image.
             Inr (result_image, edges, lines)))))))) \<and>
         (\<forall>x1 y1 x2 y2 rest a.
            drawn_rows cv ((x1, y1, x2, y2) # rest) a =
              and_then (with_line cv (x1, y1) (x2, y2) (0, 255, 0) 2 a) (drawn_rows cv rest)) \<and>
         snd (detect_lanes cv self cl ch ht hl hg rt rb h) ! original_image self =
           h ! original_image self \<and>
         (\<forall>r e h'. detect_lanes cv self cl ch ht hl hg rt rb h = (Inr (r, e, None), h') \<longrightarrow>
            r \<noteq> original_image self \<and>
            shape (h' ! r) = shape (h ! original_image self) \<and>
            (\<exists>vertices. roi_vertices (h' ! e) rt rb = Inr vertices \<and>
               polylines cv (h ! original_image self) [vertices] True (255, 0, 0) 2 =
                 Inr (data (h' ! r))))"
proof (intro conjI allI impI)
  show "observe (detect_lanes cv self cl ch ht hl hg rt rb h) =
           and_then (edge_map cv cl ch (h ! original_image self)) (\<lambda>edges.
           and_then (roi_vertices edges rt rb) (\<lambda>vertices.
           and_then (roi_mask_of cv vertices edges) (\<lambda>roi_mask.
           and_then (anded edges roi_mask) (\<lambda>edges_roi.
           and_then (hough_lines cv 1 hough_theta ht hl hg edges_roi) (\<lambda>lines.
           and_then (drawn_rows cv (case lines of None \<Rightarrow> [] | Some rows \<Rightarrow> rows)
                       (h ! original_image self)) (\<lambda>drawn.
           and_then (with_polylines cv [vertices] True (255, 0, 0) 2 drawn) (\<lambda>result_image.
             Inr (result_image, edges, lines))))))))"
    using assms by (simp only: detect_lanes_refines_detect detect_unfolded)
next
  fix x1 y1 x2 y2 rest a
  show "drawn_rows cv ((x1, y1, x2, y2) # rest) a =
      and_then (with_line cv (x1, y1) (x2, y2) (0, 255, 0) 2 a) (drawn_rows cv rest)"
    by (simp add: and_then_def)
next
  show "snd (detect_lanes cv self cl ch ht hl hg rt rb h) ! original_image self =
      h ! original_image self"
    using detect_lanes_frame [OF assms assms] by simp
next
  fix r e h'
  assume run: "detect_lanes cv self cl ch ht hl hg rt rb h = (Inr (r, e, None), h')"
  from detect_lanes_no_rows [OF assms run] obtain vertices where
    r: "r \<noteq> original_image self"
    and v: "roi_vertices (h' ! e) rt rb = Inr vertices"
    and p: "with_polylines cv [vertices] True (255, 0, 0) 2 (h ! original_image self) =
              Inr (h' ! r)"
    by blast
  from p [symmetric] have s: "shape (h' ! r) = shape (h ! original_image self)"
    and d: "polylines cv (h ! original_image self) [vertices] True (255, 0, 0) 2 =
                 Inr (data (h' ! r))"
    by (cases "polylines cv (h ! original_image self) [vertices] True (255, 0, 0) 2";
        simp add: with_polylines_def array_of_def)+
  from r show "r \<noteq> original_image self" .
  from s show "shape (h' ! r) = shape (h ! original_image self)" .
  from v d show "\<exists>vertices. roi_vertices (h' ! e) rt rb = Inr vertices \<and>
               polylines cv (h ! original_image self) [vertices] True (255, 0, 0) 2 =
                 Inr (data (h' ! r))"
    by blast
qed

theorem annotation_order_witness:
  "original_image \<lparr>original_image = 0, image_path = ''white_50x50.png''\<rparr> <
     length [\<lparr>shape = [50, 50, 3], data = replicate 7500 (255 :: 8 word)\<rparr>] \<and>
   fst (detect_lanes blank_library \<lparr>original_image = 0, image_path = ''white_50x50.png''\<rparr>
       50 150 1000 50 10 50 100 [\<lparr>shape = [50, 50, 3], data = replicate 7500 255\<rparr>]) =
     Inr (6, 3, None) \<and>
   snd (detect_lanes blank_library \<lparr>original_image = 0, image_path = ''white_50x50.png''\<rparr>
       50 150 1000 50 10 50 100 [\<lparr>shape = [50, 50, 3], data = replicate 7500 255\<rparr>]) ! 0 =
     \<lparr>shape = [50, 50, 3], data = replicate 7500 255\<rparr> \<and>
   polylines blank_library \<lparr>shape = [50, 50, 3], data = replicate 7500 255\<rparr>
       [[(0, 50), (0, 25), (50, 25), (50, 50)]] True (255, 0, 0) 2 =
     Inr (data (snd (detect_lanes blank_library
       \<lparr>original_image = 0, image_path = ''white_50x50.png''\<rparr>
       50 150 1000 50 10 50 100 [\<lparr>shape = [50, 50, 3], data = replicate 7500 255\<rparr>]) ! 6))"
proof -
  define w :: ndarray where "w = \<lparr>shape = [50, 50, 3], data = replicate 7500 255\<rparr>"
  define S where "S = \<lparr>original_image = 0, image_path = ''white_50x50.png''\<rparr>"
  define h' where "h' = snd (detect_lanes blank_library S 50 150 1000 50 10 50 100 [w])"
  have a: "original_image S < length [w]"
    by (simp add: S_def)
  have run: "detect_lanes blank_library S 50 150 1000 50 10 50 100 [w] = (Inr (6, 3, None), h')"
    unfolding h'_def S_def w_def by (simp only: blank_library_white_run snd_conv)
  have e: "h' ! 3 = \<lparr>shape = [50, 50], data = replicate 2500 0\<rparr>"
    unfolding h'_def S_def w_def by (simp only: blank_library_white_run snd_conv) simp
  note t = annotation_order [OF a, of blank_library 50 150 1000 50 10 50 100,
      THEN conjunct2, THEN conjunct2]
  from t [THEN conjunct1] have 1: "h' ! 0 = w"
    by (simp add: h'_def S_def)
  from t [THEN conjunct2, rule_format, OF run] obtain vertices where
    v: "roi_vertices (h' ! 3) 50 100 = Inr vertices"
    and p: "polylines blank_library ([w] ! original_image S) [vertices] True (255, 0, 0) 2 =
              Inr (data (h' ! 6))"
    by blast
  have "roi_vertices (h' ! 3) 50 100 = Inr [(0, 50), (0, 25), (50, 25), (50, 50)]"
    unfolding e
    using roi_vertices_run [of "\<lparr>shape = [50, 50], data = replicate 2500 0\<rparr>" 50 50 50 100]
    by simp
  with v have "vertices = [(0, 50), (0, 25), (50, 25), (50, 50)]" by simp
  with p have 2: "polylines blank_library w [[(0, 50), (0, 25), (50, 25), (50, 50)]] True
      (255, 0, 0) 2 = Inr (data (h' ! 6))"
    by (simp add: S_def)
  from run have 3: "fst (detect_lanes blank_library S 50 150 1000 50 10 50 100 [w]) =
      Inr (6, 3, None)"
    by simp
  from a 1 2 3 show ?thesis
    unfolding h'_def S_def w_def by (intro conjI)
qed

end
